theory Spec2Isabelle
  imports Main "HOL-Library.Word" "HOL-Library.AList"
begin

section \<open>Transaction log (package tm)\<close>

subsection \<open>Constants\<close>

type_synonym byte = "8 word"
type_synonym int64 = "64 word"

definition LenXidHeaderLength :: int64 where
  "LenXidHeaderLength = 8"

definition XidFieldSize :: int64 where
  "XidFieldSize = 1"

definition FieldTranActive :: byte where
  "FieldTranActive = 0"

definition FieldTranCommitted :: byte where
  "FieldTranCommitted = 1"

definition FieldTranAborted :: byte where
  "FieldTranAborted = 2"

definition SuperXid :: int64 where
  "SuperXid = 0"

definition XidSuffix :: string where
  "XidSuffix = ''.xid''"

subsection \<open>The file system the log runs on\<close>

text \<open>
  The part of package \<open>os\<close> that the transaction manager calls. A world holds the
  contents of the files by path, the paths at which a file cannot be created or opened,
  the largest size a file may have (the limit of the file system or of the process), and
  the trace of every file operation issued so far, oldest first. A file handle
  (\<open>*os.File\<close>) names its file, carries the offset used by \<open>Write\<close> and \<open>Seek\<close>,
  and remembers whether it was closed. An operation returns an error exactly when its
  arguments, the state of the handle or the size limit make it fail: a missing file, a
  closed handle, a negative offset, a write that would end past the size limit, a read
  that reaches the end of the file.
\<close>

datatype os_error =
  ErrNotExist | ErrPermission | ErrClosed | ErrNegativeOffset | ErrFileTooBig | EOF

datatype event =
    EvCreate string
  | EvOpen string
  | EvWrite string "byte list"
  | EvWriteAt string int64 "byte list"
  | EvReadAt string int64 nat
  | EvSeekEnd string
  | EvSync string
  | EvClose string

record world =
  files :: "string \<Rightarrow> byte list option"
  denied :: "string list"
  file_limit :: nat
  trace :: "event list"

record os_file =
  fname :: string
  fpos :: nat
  fclosed :: bool

definition log_event :: "event \<Rightarrow> world \<Rightarrow> world" where
  "log_event e w = w\<lparr>trace := trace w @ [e]\<rparr>"

text \<open>Writing \<open>data\<close> at offset \<open>off\<close>; a gap past the end of the file reads as zeros.\<close>

definition write_at :: "byte list \<Rightarrow> nat \<Rightarrow> byte list \<Rightarrow> byte list" where
  "write_at content off data =
     take off (content @ replicate (off - length content) 0) @ data @
     drop (off + length data) content"

definition os_Create :: "string \<Rightarrow> world \<Rightarrow> world \<times> (os_error + os_file)" where
  "os_Create path w =
     (if path \<in> set (denied w) then (w, Inl ErrPermission)
      else (log_event (EvCreate path) (w\<lparr>files := (files w)(path \<mapsto> [])\<rparr>),
            Inr \<lparr>fname = path, fpos = 0, fclosed = False\<rparr>))"

definition os_OpenFile :: "string \<Rightarrow> world \<Rightarrow> world \<times> (os_error + os_file)" where
  "os_OpenFile path w =
     (if path \<in> set (denied w) then (w, Inl ErrPermission)
      else case files w path of
             None \<Rightarrow> (w, Inl ErrNotExist)
           | Some c \<Rightarrow> (log_event (EvOpen path) w,
                        Inr \<lparr>fname = path, fpos = 0, fclosed = False\<rparr>))"

text \<open>What a handle can reach: the contents of its file, unless the handle is closed.\<close>

definition handle_content :: "os_file \<Rightarrow> world \<Rightarrow> os_error + byte list" where
  "handle_content f w =
     (if fclosed f then Inl ErrClosed
      else case files w (fname f) of None \<Rightarrow> Inl ErrNotExist | Some c \<Rightarrow> Inr c)"

definition file_Write ::
  "byte list \<Rightarrow> os_file \<Rightarrow> world \<Rightarrow> (world \<times> os_file) \<times> (os_error + nat)" where
  "file_Write data f w =
     (case handle_content f w of
        Inl e \<Rightarrow> ((w, f), Inl e)
      | Inr c \<Rightarrow>
          if file_limit w < fpos f + length data then ((w, f), Inl ErrFileTooBig)
          else ((log_event (EvWrite (fname f) data)
                   (w\<lparr>files := (files w)(fname f \<mapsto> write_at c (fpos f) data)\<rparr>),
                 f\<lparr>fpos := fpos f + length data\<rparr>),
                Inr (length data)))"

definition file_WriteAt ::
  "byte list \<Rightarrow> int64 \<Rightarrow> os_file \<Rightarrow> world \<Rightarrow> world \<times> (os_error + nat)" where
  "file_WriteAt data off f w =
     (case handle_content f w of
        Inl e \<Rightarrow> (w, Inl e)
      | Inr c \<Rightarrow>
          if sint off < 0 then (w, Inl ErrNegativeOffset)
          else if file_limit w < unat off + length data then (w, Inl ErrFileTooBig)
          else (log_event (EvWriteAt (fname f) off data)
                  (w\<lparr>files := (files w)(fname f \<mapsto> write_at c (unat off) data)\<rparr>),
                Inr (length data)))"

definition file_ReadAt ::
  "nat \<Rightarrow> int64 \<Rightarrow> os_file \<Rightarrow> world \<Rightarrow> world \<times> (os_error + byte list)" where
  "file_ReadAt n off f w =
     (case handle_content f w of
        Inl e \<Rightarrow> (w, Inl e)
      | Inr c \<Rightarrow>
          if sint off < 0 then (w, Inl ErrNegativeOffset)
          else if unat off + n \<le> length c
          then (log_event (EvReadAt (fname f) off n) w, Inr (take n (drop (unat off) c)))
          else (log_event (EvReadAt (fname f) off n) w, Inl EOF))"

definition file_SeekEnd ::
  "os_file \<Rightarrow> world \<Rightarrow> (world \<times> os_file) \<times> (os_error + int64)" where
  "file_SeekEnd f w =
     (case handle_content f w of
        Inl e \<Rightarrow> ((w, f), Inl e)
      | Inr c \<Rightarrow> ((log_event (EvSeekEnd (fname f)) w, f\<lparr>fpos := length c\<rparr>),
                  Inr (of_nat (length c))))"

definition file_Sync :: "os_file \<Rightarrow> world \<Rightarrow> world \<times> (os_error + unit)" where
  "file_Sync f w =
     (case handle_content f w of
        Inl e \<Rightarrow> (w, Inl e)
      | Inr c \<Rightarrow> (log_event (EvSync (fname f)) w, Inr ()))"

definition file_Close :: "os_file \<Rightarrow> world \<Rightarrow> (world \<times> os_file) \<times> (os_error + unit)" where
  "file_Close f w =
     (if fclosed f then ((w, f), Inl ErrClosed)
      else ((log_event (EvClose (fname f)) w, f\<lparr>fclosed := True\<rparr>), Inr ()))"

subsection \<open>The transaction manager\<close>

text \<open>
  \<open>panic(v)\<close> ends the call with the value \<open>v\<close>: a string, an error of the file
  system, or the run-time error of calling a method on a nil interface value.
\<close>

datatype panic_value = PanicStr string | PanicErr os_error | NilDereference

text \<open>
  The field \<open>file\<close> is named \<open>tm_file\<close> here. The field \<open>fc\<close> is an
  \<open>io.WriteCloser\<close>, an interface value that may be nil (\<open>None\<close>). All the manager
  ever does with it is to call \<open>Close\<close>, so a non-nil one is given by what its
  \<open>Close\<close> returns (\<open>None\<close> for a nil error). The mutex
  \<open>counterLock\<close> has no field here: \<open>Begin\<close>, which holds it from start to end, is one
  function of the state.
\<close>

datatype write_closer = WriteCloser (wc_Close: "os_error option")

record TransactionManagerImpl =
  tm_file :: os_file
  fc :: "write_closer option"
  xidCounter :: int64

type_synonym 'a tm_result = "(world \<times> TransactionManagerImpl) \<times> (panic_value + 'a)"

definition getXidPosition :: "int64 \<Rightarrow> int64" where
  "getXidPosition xid = LenXidHeaderLength + (xid - 1) * XidFieldSize"

definition checkXIDCounter :: "TransactionManagerImpl \<Rightarrow> world \<Rightarrow> unit tm_result" where
  "checkXIDCounter t w =
     (case file_SeekEnd (tm_file t) w of
        ((w1, f1), Inl e) \<Rightarrow> ((w1, t\<lparr>tm_file := f1\<rparr>), Inl (PanicStr ''BadXIDFileError''))
      | ((w1, f1), Inr fileLen) \<Rightarrow>
          let t1 = t\<lparr>tm_file := f1\<rparr> in
          if fileLen <s LenXidHeaderLength then ((w1, t1), Inl (PanicStr ''BadXIDFileError''))
          else
            (case file_ReadAt (unat LenXidHeaderLength) 0 (tm_file t1) w1 of
               (w2, Inl e) \<Rightarrow> ((w2, t1), Inl (PanicErr e))
             | (w2, Inr buf) \<Rightarrow>
                 let t2 = t1\<lparr>xidCounter := ucast (buf ! 0)\<rparr>;
                     end = getXidPosition (xidCounter t2 + 1)
                 in if end \<noteq> fileLen then ((w2, t2), Inl (PanicStr ''BadXIDFileException''))
                    else ((w2, t2), Inr ())))"

definition NewTransactionManagerImpl ::
  "os_file \<Rightarrow> write_closer option \<Rightarrow> world \<Rightarrow> TransactionManagerImpl tm_result" where
  "NewTransactionManagerImpl raf c w =
     (let manager = \<lparr>tm_file = raf, fc = c, xidCounter = 0\<rparr> in
      case checkXIDCounter manager w of
        (s, Inl p) \<Rightarrow> (s, Inl p)
      | ((w1, m1), Inr u) \<Rightarrow> ((w1, m1), Inr m1))"

definition Create :: "string \<Rightarrow> world \<Rightarrow> world \<times> (os_error + TransactionManagerImpl)" where
  "Create path w =
     (let filePath = path @ XidSuffix in
      case os_Create filePath w of
        (w1, Inl err) \<Rightarrow> (w1, Inl err)
      | (w1, Inr f) \<Rightarrow>
          let buf = replicate (unat LenXidHeaderLength) (0 :: byte) in
          (case file_Write buf f w1 of
             ((w2, f2), Inl err) \<Rightarrow> (fst (fst (file_Close f2 w2)), Inl err)
           | ((w2, f2), Inr n) \<Rightarrow> (w2, Inr \<lparr>tm_file = f2, fc = None, xidCounter = 0\<rparr>)))"

definition Open :: "string \<Rightarrow> world \<Rightarrow> world \<times> (os_error + TransactionManagerImpl)" where
  "Open path w =
     (let filePath = path @ XidSuffix in
      case os_OpenFile filePath w of
        (w1, Inl err) \<Rightarrow> (w1, Inl err)
      | (w1, Inr f) \<Rightarrow> (w1, Inr \<lparr>tm_file = f, fc = None, xidCounter = 0\<rparr>))"

definition updateXID :: "int64 \<Rightarrow> byte \<Rightarrow> TransactionManagerImpl \<Rightarrow> world \<Rightarrow> unit tm_result" where
  "updateXID xid status t w =
     (let offset = getXidPosition xid; tmp = [status] in
      case file_WriteAt tmp offset (tm_file t) w of
        (w1, Inl err) \<Rightarrow> ((w1, t), Inl (PanicErr err))
      | (w1, Inr n) \<Rightarrow>
          (case file_Sync (tm_file t) w1 of
             (w2, Inl err) \<Rightarrow> ((w2, t), Inl (PanicErr err))
           | (w2, Inr u) \<Rightarrow> ((w2, t), Inr ())))"

definition incrXIDCounter :: "TransactionManagerImpl \<Rightarrow> world \<Rightarrow> unit tm_result" where
  "incrXIDCounter t w =
     (let t1 = t\<lparr>xidCounter := xidCounter t + 1\<rparr>;
          buf = [ucast (xidCounter t1) :: byte]
      in case file_WriteAt buf 0 (tm_file t1) w of
           (w1, Inl err) \<Rightarrow> ((w1, t1), Inl (PanicErr err))
         | (w1, Inr n) \<Rightarrow>
             (case file_Sync (tm_file t1) w1 of
                (w2, Inl err) \<Rightarrow> ((w2, t1), Inl (PanicErr err))
              | (w2, Inr u) \<Rightarrow> ((w2, t1), Inr ())))"

definition Begin :: "TransactionManagerImpl \<Rightarrow> world \<Rightarrow> int64 tm_result" where
  "Begin t w =
     (let xid = xidCounter t + 1 in
      case updateXID xid FieldTranActive t w of
        (s, Inl p) \<Rightarrow> (s, Inl p)
      | ((w1, t1), Inr u) \<Rightarrow>
          (case incrXIDCounter t1 w1 of
             (s, Inl p) \<Rightarrow> (s, Inl p)
           | (s, Inr u) \<Rightarrow> (s, Inr xid)))"

definition Commit :: "int64 \<Rightarrow> TransactionManagerImpl \<Rightarrow> world \<Rightarrow> unit tm_result" where
  "Commit xid t w = updateXID xid FieldTranCommitted t w"

definition Abort :: "int64 \<Rightarrow> TransactionManagerImpl \<Rightarrow> world \<Rightarrow> unit tm_result" where
  "Abort xid t w = updateXID xid FieldTranAborted t w"

definition checkXID :: "int64 \<Rightarrow> byte \<Rightarrow> TransactionManagerImpl \<Rightarrow> world \<Rightarrow> bool tm_result" where
  "checkXID xid status t w =
     (let offset = getXidPosition xid in
      case file_ReadAt (unat XidFieldSize) offset (tm_file t) w of
        (w1, Inl err) \<Rightarrow> ((w1, t), Inl (PanicErr err))
      | (w1, Inr buf) \<Rightarrow> ((w1, t), Inr (buf ! 0 = status)))"

definition IsActive :: "int64 \<Rightarrow> TransactionManagerImpl \<Rightarrow> world \<Rightarrow> bool tm_result" where
  "IsActive xid t w =
     (if xid = SuperXid then ((w, t), Inr False) else checkXID xid FieldTranActive t w)"

definition IsCommitted :: "int64 \<Rightarrow> TransactionManagerImpl \<Rightarrow> world \<Rightarrow> bool tm_result" where
  "IsCommitted xid t w =
     (if xid = SuperXid then ((w, t), Inr True) else checkXID xid FieldTranCommitted t w)"

definition IsAborted :: "int64 \<Rightarrow> TransactionManagerImpl \<Rightarrow> world \<Rightarrow> bool tm_result" where
  "IsAborted xid t w =
     (if xid = SuperXid then ((w, t), Inr False) else checkXID xid FieldTranAborted t w)"

definition Close :: "TransactionManagerImpl \<Rightarrow> world \<Rightarrow> unit tm_result" where
  "Close t w =
     (case fc t of
        None \<Rightarrow> ((w, t), Inl NilDereference)
      | Some c \<Rightarrow>
          (case wc_Close c of
             Some err \<Rightarrow> ((w, t), Inl (PanicErr err))
           | None \<Rightarrow>
               (case file_Close (tm_file t) w of
                  ((w1, f1), Inl err) \<Rightarrow> ((w1, t\<lparr>tm_file := f1\<rparr>), Inl (PanicErr err))
                | ((w1, f1), Inr u) \<Rightarrow> ((w1, t\<lparr>tm_file := f1\<rparr>), Inr ()))))"

text \<open>A client that calls \<open>Begin\<close> \<open>n\<close> times and collects the identifiers returned.\<close>

fun Begin_times :: "nat \<Rightarrow> TransactionManagerImpl \<Rightarrow> world \<Rightarrow> int64 list tm_result" where
  "Begin_times 0 t w = ((w, t), Inr [])"
| "Begin_times (Suc n) t w =
     (case Begin t w of
        (s, Inl p) \<Rightarrow> (s, Inl p)
      | ((w1, t1), Inr xid) \<Rightarrow>
          (case Begin_times n t1 w1 of
             (s, Inl p) \<Rightarrow> (s, Inl p)
           | (s, Inr xids) \<Rightarrow> (s, Inr (xid # xids))))"

text \<open>
  The world that \<open>Begin\<close> leaves behind when every file operation succeeds, \<open>c\<close>
  being the contents of the log before the call: the status byte is written and synced,
  then the low byte of the new counter is written at offset 0 and synced.
\<close>

definition Begin_world :: "TransactionManagerImpl \<Rightarrow> world \<Rightarrow> byte list \<Rightarrow> world" where
  "Begin_world t w c =
     (let f = fname (tm_file t); xid = xidCounter t + 1; pos = getXidPosition xid in
      w\<lparr>files := (files w)(f \<mapsto> write_at (write_at c (unat pos) [FieldTranActive]) 0 [ucast xid]),
        trace := trace w @ [EvWriteAt f pos [FieldTranActive], EvSync f,
                            EvWriteAt f 0 [ucast xid], EvSync f]\<rparr>)"

subsection \<open>Concrete logs\<close>

text \<open>
  An empty file system, a file system holding one file, the log that \<open>Create\<close> makes
  at path \<open>db\<close> with the handle it returns, and the handle that \<open>Open\<close> returns.
  Files may grow to \<open>2 ^ 40\<close> bytes in them.
\<close>

definition empty_world :: world where
  "empty_world = \<lparr>files = (\<lambda>p. None), denied = [], file_limit = 2 ^ 40, trace = []\<rparr>"

definition world_with :: "string \<Rightarrow> byte list \<Rightarrow> world" where
  "world_with path c =
     \<lparr>files = (\<lambda>p. if p = path then Some c else None), denied = [], file_limit = 2 ^ 40,
      trace = []\<rparr>"

definition fresh_world :: world where
  "fresh_world = fst (Create ''db'' empty_world)"

definition fresh_tm :: TransactionManagerImpl where
  "fresh_tm = \<lparr>tm_file = \<lparr>fname = ''db.xid'', fpos = 8, fclosed = False\<rparr>, fc = None, xidCounter = 0\<rparr>"

definition opened_tm :: TransactionManagerImpl where
  "opened_tm = \<lparr>tm_file = \<lparr>fname = ''db.xid'', fpos = 0, fclosed = False\<rparr>, fc = None, xidCounter = 0\<rparr>"

definition committed_log :: "byte list" where
  "committed_log = [1, 0, 0, 0, 0, 0, 0, 0, 1]"

section \<open>Reference-counted cache (package common)\<close>

text \<open>
  The three Go maps are association lists with one entry per key, read with
  \<open>map_of\<close> and changed with \<open>AList.update\<close> and \<open>AList.delete\<close>; the order of a
  list stands for the order in which \<open>range\<close> visits the map, which Go leaves open.
  Go's \<open>int\<close> is the 64-bit signed integer of a 64-bit target: \<open>++\<close> and \<open>--\<close> wrap
  around, and \<open>>\<close> compares signed values. The stored value of type \<open>interface{}\<close>
  is a value of \<open>'r\<close>; reading a missing key gives nil, which is \<open>None\<close> where it can
  occur. The embedded interface \<open>Cache\<close> is the loader: \<open>getForCache\<close> is a parameter
  of \<open>Get\<close>, and a call of \<open>releaseForCache\<close> is recorded as an event. The constructor
  leaves that interface nil; the owner of the cache assigns it before the first call, and
  the model starts from there.

  A value of Go's type \<open>error\<close> is either the package variable \<open>CacheFullError\<close> or
  some other error. The loader returns values of this same type, \<open>CacheFullError\<close>
  included, and \<open>Get\<close> hands the loader's error on as it is.
\<close>

type_synonym go_int = "64 word"

datatype 'e go_error = CacheFullError | OtherError 'e

datatype 'r cache_event = EvLoad int64 | EvRelease "'r option"

record 'r AbstractCache =
  cache :: "(int64 \<times> 'r) list"
  references :: "(int64 \<times> go_int) list"
  getting :: "(int64 \<times> bool) list"
  maxResource :: go_int
  count :: go_int

definition NewAbstractCache :: "go_int \<Rightarrow> 'r AbstractCache" where
  "NewAbstractCache m =
     \<lparr>cache = [], references = [], getting = [], maxResource = m, count = 0\<rparr>"

text \<open>\<open>ac.getting[key]\<close>: false for a missing key.\<close>

definition is_getting :: "'r AbstractCache \<Rightarrow> int64 \<Rightarrow> bool" where
  "is_getting ac key = (case map_of (getting ac) key of None \<Rightarrow> False | Some b \<Rightarrow> b)"

text \<open>\<open>ac.references[key]\<close>: zero for a missing key.\<close>

definition refcount :: "'r AbstractCache \<Rightarrow> int64 \<Rightarrow> go_int" where
  "refcount ac key = (case map_of (references ac) key of None \<Rightarrow> 0 | Some n \<Rightarrow> n)"

text \<open>
  One pass through the body of the loop of \<open>Get\<close>, from \<open>Lock\<close> to \<open>Unlock\<close>:
  \<open>Continue\<close> when another caller is loading the key, \<open>Hit\<close> with the resident
  resource, \<open>Full\<close> for the error, and \<open>Reserved\<close> when the loop is left by \<open>break\<close>.
\<close>

datatype 'r locked_result = Continue | Hit 'r | Full | Reserved

definition Get_locked :: "int64 \<Rightarrow> 'r AbstractCache \<Rightarrow> 'r AbstractCache \<times> 'r locked_result" where
  "Get_locked key ac =
     (if is_getting ac key then (ac, Continue)
      else case map_of (cache ac) key of
             Some obj \<Rightarrow>
               (ac\<lparr>references := AList.update key (refcount ac key + 1) (references ac)\<rparr>,
                Hit obj)
           | None \<Rightarrow>
               if 0 <s maxResource ac \<and> count ac = maxResource ac then (ac, Full)
               else (ac\<lparr>count := count ac + 1,
                        getting := AList.update key True (getting ac)\<rparr>,
                     Reserved))"

text \<open>
  The two locked sections after the loader has returned, and the end of \<open>Get\<close>: on
  failure the loader's error is returned as it came.
\<close>

definition load_failed :: "int64 \<Rightarrow> 'r AbstractCache \<Rightarrow> 'r AbstractCache" where
  "load_failed key ac =
     ac\<lparr>count := count ac - 1, getting := AList.delete key (getting ac)\<rparr>"

definition load_done :: "int64 \<Rightarrow> 'r \<Rightarrow> 'r AbstractCache \<Rightarrow> 'r AbstractCache" where
  "load_done key obj ac =
     ac\<lparr>getting := AList.delete key (getting ac),
        cache := AList.update key obj (cache ac),
        references := AList.update key 1 (references ac)\<rparr>"

definition Get_finish ::
  "int64 \<Rightarrow> 'e go_error + 'r \<Rightarrow> 'r AbstractCache \<Rightarrow>
   'r AbstractCache \<times> ('e go_error + 'r)" where
  "Get_finish key res ac =
     (case res of
        Inl err \<Rightarrow> (load_failed key ac, Inl err)
      | Inr obj \<Rightarrow> (load_done key obj ac, Inr obj))"

text \<open>
  The loop of \<open>Get\<close> for a caller that runs alone: nobody changes the cache between two
  passes, so the loop either leaves at once or never does (\<open>None\<close>).
\<close>

partial_function (option) Get_loop ::
  "int64 \<Rightarrow> 'r AbstractCache \<Rightarrow> ('r AbstractCache \<times> 'r locked_result) option" where
  "Get_loop key ac =
     (case Get_locked key ac of
        (ac1, Continue) \<Rightarrow> Get_loop key ac1
      | (ac1, Hit obj) \<Rightarrow> Some (ac1, Hit obj)
      | (ac1, Full) \<Rightarrow> Some (ac1, Full)
      | (ac1, Reserved) \<Rightarrow> Some (ac1, Reserved))"

declare Get_loop.simps [code]

definition Get ::
  "(int64 \<Rightarrow> 'e go_error + 'r) \<Rightarrow> int64 \<Rightarrow> 'r AbstractCache \<Rightarrow>
   ('r AbstractCache \<times> 'r cache_event list \<times> ('e go_error + 'r)) option" where
  "Get getForCache key ac =
     (case Get_loop key ac of
        None \<Rightarrow> None
      | Some (ac1, Continue) \<Rightarrow> None
      | Some (ac1, Hit obj) \<Rightarrow> Some (ac1, [], Inr obj)
      | Some (ac1, Full) \<Rightarrow> Some (ac1, [], Inl CacheFullError)
      | Some (ac1, Reserved) \<Rightarrow>
          (case Get_finish key (getForCache key) ac1 of
             (ac2, r) \<Rightarrow> Some (ac2, [EvLoad key], r)))"

definition Release :: "int64 \<Rightarrow> 'r AbstractCache \<Rightarrow> 'r AbstractCache \<times> 'r cache_event list" where
  "Release key ac =
     (case map_of (references ac) key of
        None \<Rightarrow> (ac, [])
      | Some r \<Rightarrow>
          let ref = r - 1 in
          if ref = 0
          then (ac\<lparr>references := AList.delete key (references ac),
                   cache := AList.delete key (cache ac),
                   count := count ac - 1\<rparr>,
                [EvRelease (map_of (cache ac) key)])
          else (ac\<lparr>references := AList.update key ref (references ac)\<rparr>, []))"

text \<open>
  The loop of \<open>Close\<close> over the entries of \<open>ac.cache\<close>, each visited once; the method
  is \<open>AbstractCache_Close\<close> here, beside the \<open>Close\<close> of the transaction manager.
\<close>

fun Close_loop ::
  "(int64 \<times> 'r) list \<Rightarrow> 'r AbstractCache \<Rightarrow> 'r AbstractCache \<times> 'r cache_event list" where
  "Close_loop [] ac = (ac, [])"
| "Close_loop ((key, obj) # rest) ac =
     (case Close_loop rest
             (ac\<lparr>references := AList.delete key (references ac),
                 cache := AList.delete key (cache ac),
                 count := count ac - 1\<rparr>) of
        (ac1, evs) \<Rightarrow> (ac1, EvRelease (Some obj) # evs))"

definition AbstractCache_Close :: "'r AbstractCache \<Rightarrow> 'r AbstractCache \<times> 'r cache_event list" where
  "AbstractCache_Close ac = Close_loop (cache ac) ac"

text \<open>
  The states of a cache shared by any number of callers. Every step is one locked
  section. A key whose marker is set in \<open>getting\<close> has exactly one caller between its
  reservation and the end of its load, which then fails or succeeds.
\<close>

inductive reachable :: "'r AbstractCache \<Rightarrow> bool" where
  r_new: "reachable (NewAbstractCache m)"
| r_get: "reachable ac \<Longrightarrow> reachable (fst (Get_locked key ac))"
| r_failed: "reachable ac \<Longrightarrow> is_getting ac key \<Longrightarrow> reachable (load_failed key ac)"
| r_done: "reachable ac \<Longrightarrow> is_getting ac key \<Longrightarrow> reachable (load_done key obj ac)"
| r_release: "reachable ac \<Longrightarrow> reachable (fst (Release key ac))"
| r_close: "reachable ac \<Longrightarrow> reachable (fst (AbstractCache_Close ac))"

text \<open>
  The same steps, except that a \<open>Get\<close> is taken only while the reference count of its
  key is below the largest \<open>int\<close>, \<open>2 ^ 63 - 1\<close>: the states reached while no
  reference count has wrapped around.
\<close>

inductive reachable_nowrap :: "'r AbstractCache \<Rightarrow> bool" where
  n_new: "reachable_nowrap (NewAbstractCache m)"
| n_get: "reachable_nowrap ac \<Longrightarrow> refcount ac key \<noteq> 9223372036854775807 \<Longrightarrow>
          reachable_nowrap (fst (Get_locked key ac))"
| n_failed: "reachable_nowrap ac \<Longrightarrow> is_getting ac key \<Longrightarrow>
             reachable_nowrap (load_failed key ac)"
| n_done: "reachable_nowrap ac \<Longrightarrow> is_getting ac key \<Longrightarrow>
           reachable_nowrap (load_done key obj ac)"
| n_release: "reachable_nowrap ac \<Longrightarrow> reachable_nowrap (fst (Release key ac))"
| n_close: "reachable_nowrap ac \<Longrightarrow> reachable_nowrap (fst (AbstractCache_Close ac))"

text \<open>
  What holds of every reachable state, with \<open>count\<close> the number of resident entries
  and loading markers as a machine integer; and what holds as long as no reference
  count has wrapped around.
\<close>

definition cache_inv :: "'r AbstractCache \<Rightarrow> bool" where
  "cache_inv ac \<longleftrightarrow>
     distinct (map fst (cache ac)) \<and>
     distinct (map fst (references ac)) \<and>
     distinct (map fst (getting ac)) \<and>
     set (map fst (cache ac)) = set (map fst (references ac)) \<and>
     list_all snd (getting ac) \<and>
     list_all (\<lambda>k. k \<notin> set (map fst (cache ac))) (map fst (getting ac)) \<and>
     count ac = of_nat (length (cache ac) + length (getting ac))"


subsection \<open>Concrete caches\<close>

text \<open>
  A loader that fails on key 3 and a loader whose error is \<open>CacheFullError\<close> itself;
  four states of a cache of bound 1: key 1 resident with one holder, with two holders,
  and with a reference count that has gone from \<open>2 ^ 63 - 1\<close> to \<open>- 2 ^ 63\<close>, and
  key 3 being loaded.
\<close>

definition example_loader :: "int64 \<Rightarrow> string go_error + nat" where
  "example_loader key = (if key = 3 then Inl (OtherError ''bad'') else Inr (10 * unat key))"

definition full_loader :: "int64 \<Rightarrow> string go_error + nat" where
  "full_loader key = Inl CacheFullError"

definition one_entry :: "nat AbstractCache" where
  "one_entry = \<lparr>cache = [(1, 10)], references = [(1, 1)], getting = [], maxResource = 1, count = 1\<rparr>"

definition shared_entry :: "nat AbstractCache" where
  "shared_entry = \<lparr>cache = [(1, 10)], references = [(1, 2)], getting = [], maxResource = 1, count = 1\<rparr>"

definition wrapped_entry :: "nat AbstractCache" where
  "wrapped_entry =
     \<lparr>cache = [(1, 10)], references = [(1, 9223372036854775808)], getting = [],
      maxResource = 1, count = 1\<rparr>"

definition loading_cache :: "nat AbstractCache" where
  "loading_cache = \<lparr>cache = [], references = [], getting = [(3, True)], maxResource = 1, count = 1\<rparr>"

section \<open>Properties of the transaction log\<close>

lemma getXidPosition_eq: "getXidPosition xid = xid + 7"
  by (simp add: getXidPosition_def LenXidHeaderLength_def XidFieldSize_def)

lemma sint_plus7:
  fixes xid :: int64
  assumes "1 \<le> sint xid" "sint xid + 7 < 2 ^ 63"
  shows "sint (xid + 7) = sint xid + 7"
  using assms
  by (simp add: sint_word_ariths signed_take_bit_int_eq_self)

lemma stb63_upper:
  fixes k :: int
  assumes "2 ^ 63 \<le> k"
  shows "signed_take_bit 63 k \<le> k - 18446744073709551616"
  using signed_take_bit_int_less_eq [of 63 k] assms by simp

lemma sint_plus7_wrap:
  fixes xid :: int64
  assumes "1 \<le> sint xid" "\<not> sint xid + 7 < 2 ^ 63"
  shows "sint (xid + 7) < 0"
proof -
  define s where "s = signed_take_bit 63 (sint xid + 7)"
  have lt: "sint xid < 9223372036854775808" using sint_lt [of xid] by simp
  have le: "s \<le> (sint xid + 7) - 18446744073709551616"
    unfolding s_def using assms(2) by (intro stb63_upper) simp
  have eq: "sint (xid + 7) = s"
    by (simp add: sint_word_ariths s_def)
  show ?thesis unfolding eq using le lt by linarith
qed

lemma unat_nonneg:
  fixes x :: int64
  assumes "0 \<le> sint x"
  shows "unat x = nat (sint x)"
proof -
  define s where "s = signed_take_bit 63 (uint x)"
  have eq: "sint x = s" by (simp add: sint_uint s_def)
  have "uint x < 2 ^ 63"
  proof (rule ccontr)
    assume "\<not> uint x < 2 ^ 63"
    then have "s \<le> uint x - 18446744073709551616"
      unfolding s_def by (intro stb63_upper) simp
    moreover have "uint x < 18446744073709551616" using uint_lt2p [of x] by simp
    ultimately show False using assms unfolding eq by linarith
  qed
  moreover have "- (2 ^ 63) \<le> uint x"
    using uint_ge_0 [of x] by (simp add: order_trans [of _ 0])
  ultimately have "sint x = uint x" unfolding eq s_def
    by (intro signed_take_bit_int_eq_self)
  then show ?thesis by simp
qed



lemma file_ReadAt_ok:
  assumes "handle_content f w = Inr c" "0 \<le> sint off" "unat off + n \<le> length c"
  shows "file_ReadAt n off f w =
           (log_event (EvReadAt (fname f) off n) w, Inr (take n (drop (unat off) c)))"
  using assms by (simp add: file_ReadAt_def)

lemma file_ReadAt_eof:
  assumes "handle_content f w = Inr c" "0 \<le> sint off" "\<not> unat off + n \<le> length c"
  shows "file_ReadAt n off f w = (log_event (EvReadAt (fname f) off n) w, Inl EOF)"
  using assms by (simp add: file_ReadAt_def)

lemma file_ReadAt_neg:
  assumes "handle_content f w = Inr c" "sint off < 0"
  shows "file_ReadAt n off f w = (w, Inl ErrNegativeOffset)"
  using assms by (simp add: file_ReadAt_def)

lemma checkXID_ok:
  assumes "1 \<le> sint xid" "handle_content (tm_file t) w = Inr c"
    "sint xid + 7 < int (length c)" "length c < 2 ^ 63"
  shows "checkXID xid st t w =
           ((log_event (EvReadAt (fname (tm_file t)) (getXidPosition xid) 1) w, t),
            Inr (c ! nat (sint xid + 7) = st))"
proof -
  have s: "sint (xid + 7) = sint xid + 7"
    using assms by (intro sint_plus7) simp_all
  have u: "unat (xid + 7) = nat (sint xid + 7)"
    using assms(1) s by (simp add: unat_nonneg)
  have lt: "nat (sint xid + 7) < length c" using assms by simp
  have hd: "take (Suc 0) (drop (nat (sint xid + 7)) c) ! 0 = c ! nat (sint xid + 7)"
    using lt by simp
  have "file_ReadAt 1 (xid + 7) (tm_file t) w =
          (log_event (EvReadAt (fname (tm_file t)) (xid + 7) 1) w,
           Inr (take 1 (drop (unat (xid + 7)) c)))"
    using assms(1,2) s u lt by (intro file_ReadAt_ok) simp_all
  then show ?thesis
    using hd by (simp add: checkXID_def getXidPosition_eq XidFieldSize_def u)
qed

lemma checkXID_beyond:
  assumes "1 \<le> sint xid" "handle_content (tm_file t) w = Inr c"
    "int (length c) \<le> sint xid + 7"
  shows "snd (checkXID xid st t w) =
           Inl (PanicErr (if sint xid + 7 < 2 ^ 63 then EOF else ErrNegativeOffset))"
proof (cases "sint xid + 7 < 2 ^ 63")
  case True
  have s: "sint (xid + 7) = sint xid + 7"
    using assms(1) True by (intro sint_plus7) simp_all
  have u: "unat (xid + 7) = nat (sint xid + 7)"
    using assms(1) s by (simp add: unat_nonneg)
  have ge: "\<not> unat (xid + 7) + 1 \<le> length c"
    unfolding u using assms(1,3) by linarith
  have nn: "0 \<le> sint (xid + 7)" unfolding s using assms(1) by linarith
  have "file_ReadAt 1 (xid + 7) (tm_file t) w =
          (log_event (EvReadAt (fname (tm_file t)) (xid + 7) 1) w, Inl EOF)"
    using assms(2) nn ge by (rule file_ReadAt_eof)
  then show ?thesis
    using True by (simp add: checkXID_def getXidPosition_eq XidFieldSize_def)
next
  case False
  have "sint (xid + 7) < 0" using assms(1) False by (rule sint_plus7_wrap)
  then have "file_ReadAt 1 (xid + 7) (tm_file t) w = (w, Inl ErrNegativeOffset)"
    using assms(2) by (intro file_ReadAt_neg) simp_all
  then show ?thesis
    using False by (simp add: checkXID_def getXidPosition_eq XidFieldSize_def)
qed

lemma xid_nonzero: "1 \<le> sint (xid :: int64) \<Longrightarrow> xid \<noteq> SuperXid"
  by (auto simp: SuperXid_def)

text \<open>
  Claim C9. For the super transaction, \<open>xid = 0\<close>, \<open>IsCommitted\<close> returns true and
  \<open>IsActive\<close> and \<open>IsAborted\<close> return false in every state of the manager and of the
  file system, and the world they return is the one they were given, trace included: no
  file operation is issued. For \<open>xid \<ge> 1\<close> whose record lies inside the file, the position
  is \<open>8 + (xid - 1) * 1\<close>, one \<open>ReadAt\<close> of one byte at that position is issued, and the
  answer is whether that byte equals the status asked for.
\<close>

theorem status_queries:
  "IsCommitted 0 t w = ((w, t), Inr True) \<and>
   IsActive 0 t w = ((w, t), Inr False) \<and>
   IsAborted 0 t w = ((w, t), Inr False) \<and>
   (1 \<le> sint xid \<and> handle_content (tm_file t) w = Inr c \<and>
    sint xid + 7 < int (length c) \<and> length c < 2 ^ 63 \<longrightarrow>
      sint (getXidPosition xid) = 8 + (sint xid - 1) * 1 \<and>
      (let w' = log_event (EvReadAt (fname (tm_file t)) (getXidPosition xid) 1) w;
           b = c ! nat (sint (getXidPosition xid))
       in IsActive xid t w = ((w', t), Inr (b = FieldTranActive)) \<and>
          IsCommitted xid t w = ((w', t), Inr (b = FieldTranCommitted)) \<and>
          IsAborted xid t w = ((w', t), Inr (b = FieldTranAborted))))"
proof -
  have super: "IsCommitted 0 t w = ((w, t), Inr True)"
    "IsActive 0 t w = ((w, t), Inr False)" "IsAborted 0 t w = ((w, t), Inr False)"
    by (simp_all add: IsCommitted_def IsActive_def IsAborted_def SuperXid_def)
  have rest: "sint (getXidPosition xid) = 8 + (sint xid - 1) * 1 \<and>
      (let w' = log_event (EvReadAt (fname (tm_file t)) (getXidPosition xid) 1) w;
           b = c ! nat (sint (getXidPosition xid))
       in IsActive xid t w = ((w', t), Inr (b = FieldTranActive)) \<and>
          IsCommitted xid t w = ((w', t), Inr (b = FieldTranCommitted)) \<and>
          IsAborted xid t w = ((w', t), Inr (b = FieldTranAborted)))"
    if h: "1 \<le> sint xid" "handle_content (tm_file t) w = Inr c"
      "sint xid + 7 < int (length c)" "length c < 2 ^ 63"
  proof -
    have s: "sint (getXidPosition xid) = sint xid + 7"
      unfolding getXidPosition_eq using h by (intro sint_plus7) simp_all
    have nz: "xid \<noteq> SuperXid" using h(1) by (rule xid_nonzero)
    show ?thesis
      using nz s checkXID_ok [OF h]
      by (simp add: IsCommitted_def IsActive_def IsAborted_def Let_def)
  qed
  show ?thesis using super rest by blast
qed

theorem status_queries_witness:
  "IsCommitted 1 opened_tm (world_with ''db.xid'' committed_log) =
     ((log_event (EvReadAt ''db.xid'' 8 1) (world_with ''db.xid'' committed_log), opened_tm),
      Inr True) \<and>
   IsActive 1 opened_tm (world_with ''db.xid'' committed_log) =
     ((log_event (EvReadAt ''db.xid'' 8 1) (world_with ''db.xid'' committed_log), opened_tm),
      Inr False)"
  using status_queries [of opened_tm "world_with ''db.xid'' committed_log" 1 committed_log]
  by (simp add: handle_content_def opened_tm_def world_with_def committed_log_def Let_def
      getXidPosition_eq FieldTranActive_def FieldTranCommitted_def)

text \<open>
  Claim C10. For \<open>xid \<ge> 1\<close> whose record lies at or beyond the end of the log file, each of
  the three queries panics with the error of the failed read instead of returning a
  boolean: end of file, or a negative offset when the position overflows.
\<close>

theorem query_beyond_end_panics:
  assumes "1 \<le> sint xid" "handle_content (tm_file t) w = Inr c"
    "int (length c) \<le> sint xid + 7"
  shows "let e = (if sint xid + 7 < 2 ^ 63 then EOF else ErrNegativeOffset) in
           snd (IsActive xid t w) = Inl (PanicErr e) \<and>
           snd (IsCommitted xid t w) = Inl (PanicErr e) \<and>
           snd (IsAborted xid t w) = Inl (PanicErr e)"
proof -
  have nz: "xid \<noteq> SuperXid" using assms(1) by (rule xid_nonzero)
  show ?thesis
    using nz checkXID_beyond [OF assms]
    by (simp add: IsCommitted_def IsActive_def IsAborted_def Let_def)
qed

theorem query_beyond_end_panics_witness:
  "snd (IsActive 2 opened_tm (world_with ''db.xid'' committed_log)) = Inl (PanicErr EOF) \<and>
   snd (IsCommitted 2 opened_tm (world_with ''db.xid'' committed_log)) = Inl (PanicErr EOF) \<and>
   snd (IsAborted 2 opened_tm (world_with ''db.xid'' committed_log)) = Inl (PanicErr EOF)"
  using query_beyond_end_panics [of 2 opened_tm "world_with ''db.xid'' committed_log" committed_log]
  by (simp add: handle_content_def opened_tm_def world_with_def committed_log_def Let_def)

lemma handle_content_open:
  "handle_content f w = Inr c \<Longrightarrow> \<not> fclosed f \<and> files w (fname f) = Some c"
  by (auto simp: handle_content_def split: if_splits option.splits)

lemma handle_content_upd:
  assumes "handle_content f w = Inr c"
  shows "handle_content f (w\<lparr>files := (files w)(fname f \<mapsto> c'), trace := tr\<rparr>) = Inr c'"
  using handle_content_open [OF assms] by (simp add: handle_content_def)

lemma file_WriteAt_ok:
  assumes "handle_content f w = Inr c" "0 \<le> sint off" "unat off + length data \<le> file_limit w"
  shows "file_WriteAt data off f w =
           (w\<lparr>files := (files w)(fname f \<mapsto> write_at c (unat off) data),
              trace := trace w @ [EvWriteAt (fname f) off data]\<rparr>, Inr (length data))"
  using assms by (simp add: file_WriteAt_def log_event_def)

lemma file_Sync_ok:
  assumes "handle_content f w = Inr c"
  shows "file_Sync f w = (w\<lparr>trace := trace w @ [EvSync (fname f)]\<rparr>, Inr ())"
  using assms by (simp add: file_Sync_def log_event_def)

lemma updateXID_ok:
  assumes "handle_content (tm_file t) w = Inr c" "0 \<le> sint (getXidPosition xid)"
    "unat (getXidPosition xid) < file_limit w"
  shows "updateXID xid st t w =
           ((w\<lparr>files := (files w)(fname (tm_file t) \<mapsto> write_at c (unat (getXidPosition xid)) [st]),
               trace := trace w @ [EvWriteAt (fname (tm_file t)) (getXidPosition xid) [st],
                                   EvSync (fname (tm_file t))]\<rparr>, t), Inr ())"
proof -
  let ?w1 = "w\<lparr>files := (files w)(fname (tm_file t) \<mapsto> write_at c (unat (getXidPosition xid)) [st]),
              trace := trace w @ [EvWriteAt (fname (tm_file t)) (getXidPosition xid) [st]]\<rparr>"
  have l: "unat (getXidPosition xid) + length [st] \<le> file_limit w" using assms(3) by simp
  have a: "file_WriteAt [st] (getXidPosition xid) (tm_file t) w = (?w1, Inr 1)"
    using file_WriteAt_ok [OF assms(1,2) l] by simp
  have h: "handle_content (tm_file t) ?w1 = Inr (write_at c (unat (getXidPosition xid)) [st])"
    using assms(1) by (rule handle_content_upd)
  have b: "file_Sync (tm_file t) ?w1 =
             (?w1\<lparr>trace := trace ?w1 @ [EvSync (fname (tm_file t))]\<rparr>, Inr ())"
    using h by (rule file_Sync_ok)
  show ?thesis by (simp add: updateXID_def Let_def a b)
qed

lemma incrXIDCounter_ok:
  assumes "handle_content (tm_file t) w = Inr c" "0 < file_limit w"
  shows "incrXIDCounter t w =
           ((w\<lparr>files := (files w)(fname (tm_file t) \<mapsto> write_at c 0 [ucast (xidCounter t + 1)]),
               trace := trace w @ [EvWriteAt (fname (tm_file t)) 0 [ucast (xidCounter t + 1)],
                                   EvSync (fname (tm_file t))]\<rparr>,
             t\<lparr>xidCounter := xidCounter t + 1\<rparr>), Inr ())"
proof -
  let ?b = "ucast (xidCounter t + 1) :: byte"
  let ?w1 = "w\<lparr>files := (files w)(fname (tm_file t) \<mapsto> write_at c 0 [?b]),
              trace := trace w @ [EvWriteAt (fname (tm_file t)) 0 [?b]]\<rparr>"
  have l: "unat (0 :: int64) + length [?b] \<le> file_limit w" using assms(2) by simp
  have a: "file_WriteAt [?b] 0 (tm_file t) w = (?w1, Inr 1)"
    using file_WriteAt_ok [OF assms(1) _ l] by simp
  have h: "handle_content (tm_file t) ?w1 = Inr (write_at c 0 [?b])"
    using assms(1) by (rule handle_content_upd)
  have b: "file_Sync (tm_file t) ?w1 =
             (?w1\<lparr>trace := trace ?w1 @ [EvSync (fname (tm_file t))]\<rparr>, Inr ())"
    using h by (rule file_Sync_ok)
  show ?thesis by (simp add: incrXIDCounter_def Let_def a b)
qed

lemma Begin_ok:
  assumes "handle_content (tm_file t) w = Inr c"
    "0 \<le> sint (getXidPosition (xidCounter t + 1))"
    "unat (getXidPosition (xidCounter t + 1)) < file_limit w"
  shows "Begin t w = ((Begin_world t w c, t\<lparr>xidCounter := xidCounter t + 1\<rparr>),
                      Inr (xidCounter t + 1))"
proof -
  let ?xid = "xidCounter t + 1"
  let ?f = "fname (tm_file t)"
  let ?c1 = "write_at c (unat (getXidPosition ?xid)) [FieldTranActive]"
  let ?w1 = "w\<lparr>files := (files w)(?f \<mapsto> ?c1),
               trace := trace w @ [EvWriteAt ?f (getXidPosition ?xid) [FieldTranActive], EvSync ?f]\<rparr>"
  have a: "updateXID ?xid FieldTranActive t w = ((?w1, t), Inr ())"
    using assms by (rule updateXID_ok)
  have h: "handle_content (tm_file t) ?w1 = Inr ?c1"
    using assms(1) by (rule handle_content_upd)
  have b: "incrXIDCounter t ?w1 =
             ((?w1\<lparr>files := (files ?w1)(?f \<mapsto> write_at ?c1 0 [ucast ?xid]),
                  trace := trace ?w1 @ [EvWriteAt ?f 0 [ucast ?xid], EvSync ?f]\<rparr>,
               t\<lparr>xidCounter := ?xid\<rparr>), Inr ())"
    using h by (rule incrXIDCounter_ok) (use assms(3) in simp)
  show ?thesis by (simp add: Begin_def Let_def a b Begin_world_def)
qed

lemma Begin_world_handle:
  assumes "handle_content (tm_file t) w = Inr c"
  shows "\<exists>c'. handle_content (tm_file (t\<lparr>xidCounter := x\<rparr>)) (Begin_world t w c) = Inr c'"
  using handle_content_open [OF assms] by (simp add: handle_content_def Begin_world_def Let_def)

lemma Begin_world_limit: "file_limit (Begin_world t w c) = file_limit w"
  by (simp add: Begin_world_def Let_def)

lemma sint_of_nat_small:
  assumes "m < 2 ^ 63"
  shows "sint (of_nat m :: int64) = int m"
proof -
  have "m < 2 ^ 64" using assms by (rule less_trans) simp
  then have tb: "take_bit 64 m = m" by (rule take_bit_nat_eq_self)
  have "sint (of_nat m :: int64) = signed_take_bit 63 (int m)"
    by (simp add: sint_uint unsigned_of_nat tb)
  moreover have "int m < 2 ^ 63" using assms by (simp add: of_nat_less_iff [of m "2 ^ 63", where 'a = int, simplified])
  ultimately show ?thesis by (simp add: signed_take_bit_int_eq_self)
qed

lemma Create_ok:
  assumes "Create path w = (w1, Inr t1)"
  shows "handle_content (tm_file t1) w1 = Inr (replicate 8 0) \<and> xidCounter t1 = 0 \<and> fc t1 = None
         \<and> fname (tm_file t1) = path @ XidSuffix"
  using assms
  by (auto simp: Create_def os_Create_def file_Write_def handle_content_def log_event_def
      write_at_def LenXidHeaderLength_def Let_def split: if_splits)

lemma unat_of_nat_small:
  assumes "m < 2 ^ 63"
  shows "unat (of_nat m :: int64) = m"
proof -
  have "m < 2 ^ 64" using assms by (rule less_trans) simp
  then have "take_bit 64 m = m" by (rule take_bit_nat_eq_self)
  then show ?thesis by (simp add: unsigned_of_nat)
qed

lemma write_at_end: "write_at c (length c) d = c @ d"
  by (simp add: write_at_def)

lemma write_at_head: "write_at (h # r) 0 [b] = b # r"
  by (simp add: write_at_def)

lemma Begin_content:
  assumes "handle_content (tm_file t) w = Inr (h # r)" "xidCounter t = of_nat k"
    "length r = k + 7" "k + 8 < 2 ^ 63" "k + 8 < file_limit w"
  shows "Begin t w = ((Begin_world t w (h # r), t\<lparr>xidCounter := of_nat (Suc k)\<rparr>), Inr (of_nat (Suc k)))
         \<and> handle_content (tm_file t) (Begin_world t w (h # r)) =
             Inr (ucast (of_nat (Suc k) :: int64) # r @ [FieldTranActive])"
proof -
  have x: "xidCounter t + 1 = of_nat (Suc k)" using assms(2) by simp
  have p: "getXidPosition (xidCounter t + 1) = of_nat (k + 8)"
    by (simp add: getXidPosition_eq x)
  have s: "sint (of_nat (k + 8) :: int64) = int (k + 8)"
    using assms(4) by (rule sint_of_nat_small)
  have u: "unat (of_nat (k + 8) :: int64) = k + 8"
    using assms(4) by (rule unat_of_nat_small)
  have nn: "0 \<le> sint (getXidPosition (xidCounter t + 1))"
    unfolding p s by simp
  have lim: "unat (getXidPosition (xidCounter t + 1)) < file_limit w"
    unfolding p u by (rule assms(5))
  have b: "Begin t w = ((Begin_world t w (h # r), t\<lparr>xidCounter := xidCounter t + 1\<rparr>),
                      Inr (xidCounter t + 1))"
    using assms(1) nn lim by (rule Begin_ok)
  have len: "k + 8 = length (h # r)" using assms(3) by simp
  have c: "write_at (write_at (h # r) (k + 8) [FieldTranActive]) 0 [ucast (of_nat (Suc k) :: int64)]
           = ucast (of_nat (Suc k) :: int64) # r @ [FieldTranActive]"
    unfolding len write_at_end by (simp add: write_at_head)
  have o: "\<not> fclosed (tm_file t)" using handle_content_open [OF assms(1)] by simp
  have bw: "files (Begin_world t w (h # r)) (fname (tm_file t)) =
             Some (write_at (write_at (h # r) (unat (getXidPosition (xidCounter t + 1)))
                      [FieldTranActive]) 0 [ucast (xidCounter t + 1)])"
    by (simp add: Begin_world_def Let_def)
  have "files (Begin_world t w (h # r)) (fname (tm_file t)) =
             Some (ucast (of_nat (Suc k) :: int64) # r @ [FieldTranActive])"
    unfolding bw p u unfolding x c ..
  then have hc: "handle_content (tm_file t) (Begin_world t w (h # r)) =
             Inr (ucast (of_nat (Suc k) :: int64) # r @ [FieldTranActive])"
    using o by (simp add: handle_content_def)
  have b': "Begin t w = ((Begin_world t w (h # r), t\<lparr>xidCounter := of_nat (Suc k)\<rparr>),
                      Inr (of_nat (Suc k)))"
    using b unfolding x .
  show ?thesis using b' hc by (rule conjI)
qed

lemma Begin_times_content:
  assumes "handle_content (tm_file t) w = Inr (h # r)" "xidCounter t = of_nat k"
    "length r = k + 7" "k + n + 8 < 2 ^ 63" "k + n + 8 \<le> file_limit w"
  shows "\<exists>w2 t2. Begin_times n t w = ((w2, t2), Inr (map of_nat [Suc k ..< Suc (k + n)])) \<and>
           xidCounter t2 = of_nat (k + n) \<and> tm_file t2 = tm_file t \<and> fc t2 = fc t \<and>
           handle_content (tm_file t2) w2 =
             Inr ((if n = 0 then h else ucast (of_nat (k + n) :: int64)) # r @ replicate n FieldTranActive)"
  using assms
proof (induction n arbitrary: t w h r k)
  case 0
  then show ?case by simp
next
  case (Suc n)
  let ?t1 = "t\<lparr>xidCounter := of_nat (Suc k)\<rparr>"
  let ?w1 = "Begin_world t w (h # r)"
  let ?h1 = "ucast (of_nat (Suc k) :: int64) :: byte"
  have k8: "k + 8 < 2 ^ 63" using Suc.prems(4) by simp
  have kl: "k + 8 < file_limit w" using Suc.prems(5) by simp
  have b: "Begin t w = ((?w1, ?t1), Inr (of_nat (Suc k)))"
    and h1: "handle_content (tm_file t) ?w1 = Inr (?h1 # r @ [FieldTranActive])"
    using Begin_content [OF Suc.prems(1,2,3) k8 kl] by simp_all
  have "\<exists>w2 t2. Begin_times n ?t1 ?w1 = ((w2, t2), Inr (map of_nat [Suc (Suc k) ..< Suc (Suc k + n)])) \<and>
           xidCounter t2 = of_nat (Suc k + n) \<and> tm_file t2 = tm_file ?t1 \<and> fc t2 = fc ?t1 \<and>
           handle_content (tm_file t2) w2 =
             Inr ((if n = 0 then ?h1 else ucast (of_nat (Suc k + n) :: int64)) #
                  (r @ [FieldTranActive]) @ replicate n FieldTranActive)"
    by (rule Suc.IH) (use h1 Suc.prems in \<open>simp_all add: Begin_world_limit\<close>)
  then obtain w2 t2 where
    r: "Begin_times n ?t1 ?w1 = ((w2, t2), Inr (map of_nat [Suc (Suc k) ..< Suc (Suc k + n)]))"
    and x2: "xidCounter t2 = of_nat (Suc k + n)" and f2: "tm_file t2 = tm_file t" "fc t2 = fc t"
    and c2: "handle_content (tm_file t2) w2 =
             Inr ((if n = 0 then ?h1 else ucast (of_nat (Suc k + n) :: int64)) #
                  (r @ [FieldTranActive]) @ replicate n FieldTranActive)"
    by auto
  have e: "[Suc k ..< Suc (k + Suc n)] = Suc k # [Suc (Suc k) ..< Suc (k + Suc n)]"
    by (rule upt_conv_Cons) simp
  have res: "Begin_times (Suc n) t w = ((w2, t2), Inr (map of_nat [Suc k ..< Suc (k + Suc n)]))"
    unfolding e by (simp only: Begin_times.simps b r prod.case sum.case list.map add_Suc add_Suc_right)
  have rep: "(r @ [FieldTranActive]) @ replicate n FieldTranActive = r @ replicate (Suc n) FieldTranActive"
    by (simp add: replicate_app_Cons_same)
  have hd: "(if n = 0 then ?h1 else ucast (of_nat (Suc k + n) :: int64)) =
            (ucast (of_nat (k + Suc n) :: int64) :: byte)"
    by simp
  show ?case
    using res x2 f2 c2 unfolding rep hd by simp
qed

lemma checkXIDCounter_result:
  assumes "handle_content (tm_file t) w = Inr c"
  shows "snd (checkXIDCounter t w) =
           (if of_nat (length c) <s LenXidHeaderLength then Inl (PanicStr ''BadXIDFileError'')
            else if 8 \<le> length c
            then (if getXidPosition (ucast (c ! 0) + 1) \<noteq> of_nat (length c)
                  then Inl (PanicStr ''BadXIDFileException'') else Inr ())
            else Inl (PanicErr EOF))"
proof -
  have o: "\<not> fclosed (tm_file t)" "files w (fname (tm_file t)) = Some c"
    using handle_content_open [OF assms] by simp_all
  show ?thesis
    using o
    by (simp add: checkXIDCounter_def file_SeekEnd_def file_ReadAt_def handle_content_def
        log_event_def Let_def LenXidHeaderLength_def)
qed

lemma Create_fresh: "Create ''db'' empty_world = (fresh_world, Inr fresh_tm)"
  by (simp add: fresh_world_def fresh_tm_def Create_def os_Create_def file_Write_def
      handle_content_def log_event_def empty_world_def XidSuffix_def LenXidHeaderLength_def Let_def)

lemma fresh_content: "handle_content (tm_file fresh_tm) fresh_world = Inr (replicate 8 0)"
  using Create_ok [OF Create_fresh] by simp

lemma fresh_limit: "file_limit fresh_world = 2 ^ 40"
  by (simp add: fresh_world_def Create_def os_Create_def file_Write_def handle_content_def
      log_event_def empty_world_def XidSuffix_def LenXidHeaderLength_def Let_def)

text \<open>
  Claim C4, at the input where the code departs from it. The log at \<open>db\<close> holds one
  committed transaction: counter 1 in the header, record 1 Committed. \<open>Open\<close> returns a
  handle whose \<open>xidCounter\<close> is 0, since it never reads the header, and \<open>Begin\<close> on that
  handle takes \<open>xid = 0 + 1\<close>: it returns 1 a second time instead of 2, writes Active over
  the Committed byte at offset 8, leaves the counter byte at 1 and the file at nine bytes,
  so that transaction 1 is no longer reported committed. On the handle from
  \<open>NewTransactionManagerImpl\<close>, which reads the counter, \<open>Begin\<close> returns 2 and writes
  its Active byte at offset 9.
\<close>

theorem Begin_after_Open_reuses_xid:
  "(case Open ''db'' (world_with ''db.xid'' committed_log) of
      (w1, Inl e) \<Rightarrow> False
    | (w1, Inr t1) \<Rightarrow>
        xidCounter t1 = 0 \<and>
        (case Begin t1 w1 of
           ((w2, t2), r) \<Rightarrow>
             r = Inr 1 \<and>
             files w2 ''db.xid'' = Some [1, 0, 0, 0, 0, 0, 0, 0, 0] \<and>
             trace w2 = [EvOpen ''db.xid'', EvWriteAt ''db.xid'' 8 [0], EvSync ''db.xid'',
                         EvWriteAt ''db.xid'' 0 [1], EvSync ''db.xid''] \<and>
             snd (IsCommitted 1 t2 w2) = Inr False)) \<and>
   (case NewTransactionManagerImpl \<lparr>fname = ''db.xid'', fpos = 0, fclosed = False\<rparr> None
           (world_with ''db.xid'' committed_log) of
      (s, Inl p) \<Rightarrow> False
    | ((w1, t1), Inr m) \<Rightarrow>
        xidCounter m = 1 \<and>
        (case Begin m w1 of
           ((w2, t2), r) \<Rightarrow>
             r = Inr 2 \<and>
             files w2 ''db.xid'' = Some [2, 0, 0, 0, 0, 0, 0, 0, 1, 0] \<and>
             snd (IsCommitted 1 t2 w2) = Inr True))"
  by (simp add: Open_def os_OpenFile_def world_with_def committed_log_def log_event_def
      XidSuffix_def Begin_def updateXID_def incrXIDCounter_def file_WriteAt_def file_Sync_def
      handle_content_def write_at_def getXidPosition_eq FieldTranActive_def
      FieldTranCommitted_def IsCommitted_def SuperXid_def checkXID_def file_ReadAt_def
      XidFieldSize_def NewTransactionManagerImpl_def checkXIDCounter_def file_SeekEnd_def
      LenXidHeaderLength_def word_sless_alt Let_def)

text \<open>
  Claim C2, at the input where the code departs from it. After \<open>Create\<close> and 256 calls of
  \<open>Begin\<close>, which return 1 to 256, the counter of the handle is 256 and the file has
  8 + 256 bytes, but the eight header bytes are all zero, as on a new log: only the low
  byte of the counter is written. Reading the header back as \<open>checkXIDCounter\<close> does
  gives 0, and the length check of that function rejects the file.
\<close>

theorem counter_header_wraps_at_256:
  "\<exists>w2 t2. Begin_times 256 fresh_tm fresh_world = ((w2, t2), Inr (map of_nat [1 ..< 257])) \<and>
           xidCounter t2 = 256 \<and>
           map_option (take 8) (files w2 ''db.xid'') = Some [0, 0, 0, 0, 0, 0, 0, 0] \<and>
           map_option length (files w2 ''db.xid'') = Some 264 \<and>
           snd (checkXIDCounter t2 w2) = Inl (PanicStr ''BadXIDFileException'')"
proof -
  have c: "handle_content (tm_file fresh_tm) fresh_world = Inr (0 # replicate 7 0)"
    using fresh_content by (simp add: numeral_eq_Suc)
  have x: "xidCounter fresh_tm = of_nat 0" by (simp add: fresh_tm_def)
  have l: "length (replicate 7 (0::byte)) = 0 + 7" by simp
  have b: "(0::nat) + 256 + 8 < 2 ^ 63" by simp
  have lim: "(0::nat) + 256 + 8 \<le> file_limit fresh_world" by (simp add: fresh_limit)
  obtain w2 t2 where
    r: "Begin_times 256 fresh_tm fresh_world = ((w2, t2), Inr (map of_nat [Suc 0 ..< Suc (0 + 256)]))"
    and x2: "xidCounter t2 = of_nat (0 + 256)" and f2: "tm_file t2 = tm_file fresh_tm"
    and c2: "handle_content (tm_file t2) w2 =
             Inr ((if (256::nat) = 0 then 0 else ucast (of_nat (0 + 256) :: int64)) #
                  replicate 7 0 @ replicate 256 FieldTranActive)"
    using Begin_times_content [OF c x l b lim] by blast
  have c3: "handle_content (tm_file t2) w2 = Inr (0 # replicate 7 0 @ replicate 256 0)"
    using c2 by (simp add: FieldTranActive_def)
  have fl: "files w2 ''db.xid'' = Some (0 # replicate 7 0 @ replicate 256 0)"
    using handle_content_open [OF c3] f2 by (simp add: fresh_tm_def)
  have chk: "snd (checkXIDCounter t2 w2) = Inl (PanicStr ''BadXIDFileException'')"
    unfolding checkXIDCounter_result [OF c3]
    by (simp add: LenXidHeaderLength_def getXidPosition_eq word_sless_alt)
  have "Begin_times 256 fresh_tm fresh_world = ((w2, t2), Inr (map of_nat [1 ..< 257]))"
    using r by simp
  moreover have "xidCounter t2 = 256" using x2 by simp
  moreover have "map_option (take 8) (files w2 ''db.xid'') = Some [0, 0, 0, 0, 0, 0, 0, 0]"
    unfolding fl by (simp add: numeral_eq_Suc)
  moreover have "map_option length (files w2 ''db.xid'') = Some 264"
    unfolding fl by simp
  ultimately show ?thesis using chk by blast
qed

text \<open>
  Claim C1, at the input where the code departs from it. The log with one committed
  transaction has the nine bytes \<open>1 0 0 0 0 0 0 0 1\<close>. On that file cut by one byte, and
  on that file with one byte added, \<open>Open\<close> returns a handle and no error, and the only
  file operation is the opening itself: neither the header nor the length is read.
  \<open>NewTransactionManagerImpl\<close>, which calls \<open>checkXIDCounter\<close>, panics on both files
  and accepts the intact one.
\<close>

theorem Open_skips_integrity_check:
  "Open ''db'' (world_with ''db.xid'' [1, 0, 0, 0, 0, 0, 0, 0]) =
     ((world_with ''db.xid'' [1, 0, 0, 0, 0, 0, 0, 0])\<lparr>trace := [EvOpen ''db.xid'']\<rparr>,
      Inr \<lparr>tm_file = \<lparr>fname = ''db.xid'', fpos = 0, fclosed = False\<rparr>, fc = None, xidCounter = 0\<rparr>) \<and>
   Open ''db'' (world_with ''db.xid'' [1, 0, 0, 0, 0, 0, 0, 0, 1, 0]) =
     ((world_with ''db.xid'' [1, 0, 0, 0, 0, 0, 0, 0, 1, 0])\<lparr>trace := [EvOpen ''db.xid'']\<rparr>,
      Inr \<lparr>tm_file = \<lparr>fname = ''db.xid'', fpos = 0, fclosed = False\<rparr>, fc = None, xidCounter = 0\<rparr>) \<and>
   snd (NewTransactionManagerImpl \<lparr>fname = ''db.xid'', fpos = 0, fclosed = False\<rparr> None
          (world_with ''db.xid'' [1, 0, 0, 0, 0, 0, 0, 0])) = Inl (PanicStr ''BadXIDFileException'') \<and>
   snd (NewTransactionManagerImpl \<lparr>fname = ''db.xid'', fpos = 0, fclosed = False\<rparr> None
          (world_with ''db.xid'' [1, 0, 0, 0, 0, 0, 0, 0, 1, 0])) = Inl (PanicStr ''BadXIDFileException'') \<and>
   (\<exists>s m. NewTransactionManagerImpl \<lparr>fname = ''db.xid'', fpos = 0, fclosed = False\<rparr> None
          (world_with ''db.xid'' [1, 0, 0, 0, 0, 0, 0, 0, 1]) = (s, Inr m) \<and> xidCounter m = 1)"
  by (simp add: Open_def os_OpenFile_def world_with_def log_event_def XidSuffix_def
      NewTransactionManagerImpl_def checkXIDCounter_def file_SeekEnd_def file_ReadAt_def
      handle_content_def Let_def LenXidHeaderLength_def getXidPosition_eq word_sless_alt)

text \<open>
  Claim C3, at the input where the code departs from it. On the log made by \<open>Create\<close>,
  \<open>Begin\<close> returns 1 and \<open>Commit 1\<close> succeeds, but \<open>Close\<close> panics: \<open>Create\<close> leaves the
  field \<open>fc\<close> nil and \<open>Close\<close> calls its method first, so the file is never closed by it.
  \<open>Open\<close> on the same path then finds transaction 1 committed, and \<open>Close\<close> on the
  handle from \<open>Open\<close> panics in the same way.
\<close>

theorem round_trip_stops_at_Close:
  "(case Begin fresh_tm fresh_world of
      ((w2, t2), r2) \<Rightarrow>
        r2 = Inr 1 \<and>
        (case Commit 1 t2 w2 of
           ((w3, t3), r3) \<Rightarrow>
             r3 = Inr () \<and>
             Close t3 w3 = ((w3, t3), Inl NilDereference) \<and>
             (case Open ''db'' w3 of
                (w4, Inl e) \<Rightarrow> False
              | (w4, Inr t4) \<Rightarrow>
                  snd (IsCommitted 1 t4 w4) = Inr True \<and>
                  Close t4 w4 = ((w4, t4), Inl NilDereference))))"
  by (simp add: fresh_world_def fresh_tm_def Create_def os_Create_def file_Write_def
      handle_content_def log_event_def empty_world_def XidSuffix_def LenXidHeaderLength_def Let_def
      Begin_def updateXID_def incrXIDCounter_def file_WriteAt_def file_Sync_def write_at_def
      getXidPosition_eq FieldTranActive_def FieldTranCommitted_def Commit_def Close_def
      Open_def os_OpenFile_def IsCommitted_def SuperXid_def checkXID_def file_ReadAt_def
      XidFieldSize_def)

section \<open>Properties of the cache\<close>

lemma Get_loop_leaves:
  assumes "\<not> is_getting ac key"
  shows "Get_loop key ac = Some (Get_locked key ac)"
  using assms
  by (subst Get_loop.simps) (simp add: Get_locked_def split: option.splits)

lemma Get_loop_Some_not_getting:
  assumes "Get_loop key ac = Some r"
  shows "\<not> is_getting ac key"
proof (rule Get_loop.raw_induct [where P = "\<lambda>k a y. \<not> is_getting a k", OF _ assms])
  fix loop :: "int64 \<Rightarrow> 'a AbstractCache \<Rightarrow> ('a AbstractCache \<times> 'a locked_result) option"
  fix k a y
  assume ih: "\<And>k a y. loop k a = Some y \<Longrightarrow> \<not> is_getting a k"
  assume body: "(case Get_locked k a of
                   (ac1, Continue) \<Rightarrow> loop k ac1
                 | (ac1, Hit obj) \<Rightarrow> Some (ac1, Hit obj)
                 | (ac1, Full) \<Rightarrow> Some (ac1, Full)
                 | (ac1, Reserved) \<Rightarrow> Some (ac1, Reserved)) = Some y"
  show "\<not> is_getting a k"
  proof
    assume g: "is_getting a k"
    then have "Get_locked k a = (a, Continue)" by (simp add: Get_locked_def)
    with body have "loop k a = Some y" by simp
    then have "\<not> is_getting a k" by (rule ih)
    with g show False by simp
  qed
qed

lemma Get_loop_spins:
  assumes "is_getting ac key"
  shows "Get_loop key ac = None"
proof (cases "Get_loop key ac")
  case None
  then show ?thesis .
next
  case (Some r)
  then have "\<not> is_getting ac key" by (rule Get_loop_Some_not_getting)
  with assms show ?thesis by simp
qed

lemma list_all_update:
  assumes "list_all P al" "P (k, v)"
  shows "list_all P (AList.update k v al)"
  using assms by (induction al) auto

lemma list_all_delete:
  assumes "list_all P al"
  shows "list_all P (AList.delete k al)"
  using assms by (induction al) auto

lemma length_keys_removeAll:
  assumes "distinct ks" "k \<in> set ks"
  shows "int (length (removeAll k ks)) = int (length ks) - 1"
proof -
  have "removeAll k ks = remove1 k ks"
    using assms(1) by (simp add: distinct_remove1_removeAll)
  then show ?thesis using assms(2) by (simp add: length_remove1) (cases ks; simp)
qed

lemma length_delete_present:
  assumes "distinct (map fst al)" "k \<in> set (map fst al)"
  shows "int (length (AList.delete k al)) = int (length al) - 1"
proof -
  have "length (AList.delete k al) = length (map fst (AList.delete k al))" by simp
  also have "\<dots> = length (removeAll k (map fst al))" by (simp only: AList.delete_keys)
  finally show ?thesis using length_keys_removeAll [OF assms] by simp
qed

lemma length_update_absent:
  assumes "k \<notin> set (map fst al)"
  shows "length (AList.update k v al) = Suc (length al)"
proof -
  have "length (AList.update k v al) = length (map fst (AList.update k v al))" by simp
  also have "\<dots> = Suc (length al)" using assms by (simp only: AList.update_keys) simp
  finally show ?thesis .
qed

lemma length_update_present:
  assumes "k \<in> set (map fst al)"
  shows "length (AList.update k v al) = length al"
proof -
  have "length (AList.update k v al) = length (map fst (AList.update k v al))" by simp
  also have "\<dots> = length al" using assms by (simp only: AList.update_keys) simp
  finally show ?thesis .
qed

lemma keys_update: "set (map fst (AList.update k v al)) = insert k (set (map fst al))"
  using AList.dom_update [of k v al] by simp

lemma keys_delete: "set (map fst (AList.delete k al)) = set (map fst al) - {k}"
  by (simp only: AList.delete_keys set_removeAll)

lemma map_of_None_keys: "map_of al k = None \<longleftrightarrow> k \<notin> set (map fst al)"
  by (simp add: map_of_eq_None_iff)

lemma is_getting_keys:
  assumes "is_getting ac key"
  shows "key \<in> set (map fst (getting ac))"
proof (cases "map_of (getting ac) key")
  case None
  then show ?thesis using assms by (simp add: is_getting_def)
next
  case (Some b)
  then have "(key, b) \<in> set (getting ac)" by (rule map_of_SomeD)
  then have "fst (key, b) \<in> fst ` set (getting ac)" by (rule imageI)
  then show ?thesis by simp
qed

lemma not_getting_keys:
  assumes "\<not> is_getting ac key" "list_all snd (getting ac)"
  shows "key \<notin> set (map fst (getting ac))"
proof
  assume "key \<in> set (map fst (getting ac))"
  then obtain b where m: "map_of (getting ac) key = Some b"
    by (cases "map_of (getting ac) key") (simp_all add: map_of_None_keys)
  then have "(key, b) \<in> set (getting ac)" by (rule map_of_SomeD)
  then have b using assms(2) by (auto simp: list_all_iff)
  then show False using assms(1) m by (simp add: is_getting_def)
qed

lemma cache_inv_new: "cache_inv (NewAbstractCache m)"
  by (simp add: cache_inv_def NewAbstractCache_def)


lemma length_delete_Suc:
  assumes "distinct (map fst al)" "k \<in> set (map fst al)"
  shows "length al = Suc (length (AList.delete k al))"
  using length_delete_present [OF assms] by linarith

lemma cache_invD:
  assumes "cache_inv ac"
  shows "distinct (map fst (cache ac))"
    and "distinct (map fst (references ac))"
    and "distinct (map fst (getting ac))"
    and "set (map fst (cache ac)) = set (map fst (references ac))"
    and "list_all snd (getting ac)"
    and "list_all (\<lambda>k. k \<notin> set (map fst (cache ac))) (map fst (getting ac))"
    and "count ac = of_nat (length (cache ac) + length (getting ac))"
  using assms unfolding cache_inv_def by blast+

lemma cache_invI:
  assumes "cache ac = c" "references ac = r" "getting ac = g" "count ac = n"
    and "distinct (map fst c)"
    and "distinct (map fst r)"
    and "distinct (map fst g)"
    and "set (map fst c) = set (map fst r)"
    and "list_all snd g"
    and "list_all (\<lambda>k. k \<notin> set (map fst c)) (map fst g)"
    and "n = of_nat (length c + length g)"
  shows "cache_inv ac"
  using assms unfolding cache_inv_def by blast

lemma in_keys_of_Some:
  assumes "map_of al k = Some v"
  shows "k \<in> set (map fst al)"
proof -
  have "(k, v) \<in> set al" using assms by (rule map_of_SomeD)
  then have "fst (k, v) \<in> fst ` set al" by (rule imageI)
  then show ?thesis by simp
qed

lemma inv_hit:
  assumes "cache_inv ac" "map_of (cache ac) key = Some obj"
  shows "cache_inv (ac\<lparr>references := AList.update key v (references ac)\<rparr>)"
proof -
  note i = cache_invD [OF assms(1)]
  have k: "key \<in> set (map fst (cache ac))" using assms(2) by (rule in_keys_of_Some)
  then have kr: "key \<in> set (map fst (references ac))" unfolding i(4) .
  have ks: "set (map fst (cache ac)) = set (map fst (AList.update key v (references ac)))"
    unfolding keys_update i(4) using kr by blast
  have d: "distinct (map fst (AList.update key v (references ac)))"
    using i(2) by (rule AList.distinct_update)
  show ?thesis
    by (rule cache_invI [where c = "cache ac" and g = "getting ac" and n = "count ac"
          and r = "AList.update key v (references ac)"])
      (simp, simp, simp, simp, (fact i ks d)+)
qed

lemma inv_reserve:
  assumes "cache_inv ac" "\<not> is_getting ac key" "map_of (cache ac) key = None"
  shows "cache_inv (ac\<lparr>count := count ac + 1, getting := AList.update key True (getting ac)\<rparr>)"
proof -
  note i = cache_invD [OF assms(1)]
  have ng: "key \<notin> set (map fst (getting ac))"
    using assms(2) i(5) by (rule not_getting_keys)
  have nc: "key \<notin> set (map fst (cache ac))"
    using assms(3) by (rule map_of_None_keys [THEN iffD1])
  have len: "length (AList.update key True (getting ac)) = Suc (length (getting ac))"
    using ng by (rule length_update_absent)
  have d: "distinct (map fst (AList.update key True (getting ac)))"
    using i(3) by (rule AList.distinct_update)
  have la: "list_all snd (AList.update key True (getting ac))"
    using i(5) by (rule list_all_update) simp
  have dj: "list_all (\<lambda>k. k \<notin> set (map fst (cache ac)))
              (map fst (AList.update key True (getting ac)))"
    using i(6) nc ng by (simp only: AList.update_keys if_False list_all_append) simp
  have c: "count ac + 1 = of_nat (length (cache ac) + length (AList.update key True (getting ac)))"
    unfolding len i(7) by simp
  show ?thesis
    by (rule cache_invI [where c = "cache ac" and r = "references ac" and n = "count ac + 1"
          and g = "AList.update key True (getting ac)"])
      (simp, simp, simp, simp, (fact i d la dj c)+)
qed

lemma inv_Get_locked:
  assumes "cache_inv ac"
  shows "cache_inv (fst (Get_locked key ac))"
proof (cases "is_getting ac key")
  case True
  then show ?thesis using assms by (simp add: Get_locked_def)
next
  case False
  show ?thesis
  proof (cases "map_of (cache ac) key")
    case None
    then show ?thesis
      using False assms inv_reserve [OF assms False None] by (simp add: Get_locked_def)
  next
    case (Some obj)
    then show ?thesis
      using False inv_hit [OF assms Some] by (simp add: Get_locked_def)
  qed
qed

lemma inv_load_failed:
  assumes "cache_inv ac" "is_getting ac key"
  shows "cache_inv (load_failed key ac)"
proof -
  note i = cache_invD [OF assms(1)]
  have kg: "key \<in> set (map fst (getting ac))" using assms(2) by (rule is_getting_keys)
  have len: "length (getting ac) = Suc (length (AList.delete key (getting ac)))"
    using i(3) kg by (rule length_delete_Suc)
  have d: "distinct (map fst (AList.delete key (getting ac)))"
    using i(3) by (rule AList.distinct_delete)
  have la: "list_all snd (AList.delete key (getting ac))"
    using i(5) by (rule list_all_delete)
  have dj: "list_all (\<lambda>k. k \<notin> set (map fst (cache ac)))
              (map fst (AList.delete key (getting ac)))"
    using i(6) by (simp only: AList.delete_keys list_all_iff set_removeAll) blast
  have c: "count ac - 1 = of_nat (length (cache ac) + length (AList.delete key (getting ac)))"
    unfolding i(7) len by simp
  show ?thesis unfolding load_failed_def
    by (rule cache_invI [where c = "cache ac" and r = "references ac" and n = "count ac - 1"
          and g = "AList.delete key (getting ac)"])
      (simp, simp, simp, simp, (fact i d la dj c)+)
qed

lemma getting_not_resident:
  assumes "cache_inv ac" "is_getting ac key"
  shows "key \<notin> set (map fst (cache ac))"
proof -
  have kg: "key \<in> set (map fst (getting ac))" using assms(2) by (rule is_getting_keys)
  have "\<forall>k \<in> set (map fst (getting ac)). k \<notin> set (map fst (cache ac))"
    using cache_invD(6) [OF assms(1)] by (simp only: list_all_iff)
  then show ?thesis using kg by blast
qed

lemma inv_load_done:
  assumes "cache_inv ac" "is_getting ac key"
  shows "cache_inv (load_done key obj ac)"
proof -
  note i = cache_invD [OF assms(1)]
  have kg: "key \<in> set (map fst (getting ac))" using assms(2) by (rule is_getting_keys)
  have nc: "key \<notin> set (map fst (cache ac))" using assms by (rule getting_not_resident)
  have leng: "length (getting ac) = Suc (length (AList.delete key (getting ac)))"
    using i(3) kg by (rule length_delete_Suc)
  have lenc: "length (AList.update key obj (cache ac)) = Suc (length (cache ac))"
    using nc by (rule length_update_absent)
  have d1: "distinct (map fst (AList.delete key (getting ac)))"
    using i(3) by (rule AList.distinct_delete)
  have d2: "distinct (map fst (AList.update key obj (cache ac)))"
    using i(1) by (rule AList.distinct_update)
  have d3: "distinct (map fst (AList.update key 1 (references ac)))"
    using i(2) by (rule AList.distinct_update)
  have ks: "set (map fst (AList.update key obj (cache ac))) =
            set (map fst (AList.update key 1 (references ac)))"
    unfolding keys_update i(4) ..
  have la2: "list_all snd (AList.delete key (getting ac))"
    using i(5) by (rule list_all_delete)
  have dj: "list_all (\<lambda>k. k \<notin> set (map fst (AList.update key obj (cache ac))))
              (map fst (AList.delete key (getting ac)))"
    unfolding keys_update using i(6)
    by (simp only: AList.delete_keys list_all_iff set_removeAll) blast
  have c: "count ac = of_nat (length (AList.update key obj (cache ac)) +
                              length (AList.delete key (getting ac)))"
    unfolding lenc i(7) leng by simp
  show ?thesis unfolding load_done_def
    by (rule cache_invI [where c = "AList.update key obj (cache ac)"
          and r = "AList.update key 1 (references ac)" and n = "count ac"
          and g = "AList.delete key (getting ac)"])
      (simp, simp, simp, simp, (fact d1 d2 d3 ks la2 dj c)+)
qed

lemma inv_Release:
  assumes "cache_inv ac"
  shows "cache_inv (fst (Release key ac))"
proof (cases "map_of (references ac) key")
  case None
  then show ?thesis using assms by (simp add: Release_def)
next
  case (Some n)
  note i = cache_invD [OF assms]
  have kr: "key \<in> set (map fst (references ac))" using Some by (rule in_keys_of_Some)
  then have kc: "key \<in> set (map fst (cache ac))" unfolding i(4) .
  then obtain obj where o: "map_of (cache ac) key = Some obj"
    by (cases "map_of (cache ac) key") (simp_all add: map_of_None_keys)
  show ?thesis
  proof (cases "n - 1 = 0")
    case True
    have lenc: "length (cache ac) = Suc (length (AList.delete key (cache ac)))"
      using i(1) kc by (rule length_delete_Suc)
    have d1: "distinct (map fst (AList.delete key (cache ac)))"
      using i(1) by (rule AList.distinct_delete)
    have d2: "distinct (map fst (AList.delete key (references ac)))"
      using i(2) by (rule AList.distinct_delete)
    have ks: "set (map fst (AList.delete key (cache ac))) =
              set (map fst (AList.delete key (references ac)))"
      unfolding keys_delete i(4) ..
    have dj: "list_all (\<lambda>k. k \<notin> set (map fst (AList.delete key (cache ac))))
                (map fst (getting ac))"
      unfolding keys_delete using i(6) by (simp only: list_all_iff) blast
    have c: "count ac - 1 = of_nat (length (AList.delete key (cache ac)) + length (getting ac))"
      unfolding i(7) lenc by simp
    have "cache_inv (ac\<lparr>references := AList.delete key (references ac),
                        cache := AList.delete key (cache ac), count := count ac - 1\<rparr>)"
      by (rule cache_invI [where c = "AList.delete key (cache ac)"
            and r = "AList.delete key (references ac)" and n = "count ac - 1"
            and g = "getting ac"])
        (simp, simp, simp, simp, (fact i d1 d2 ks dj c)+)
    then show ?thesis using Some True by (simp add: Release_def)
  next
    case False
    have "cache_inv (ac\<lparr>references := AList.update key (n - 1) (references ac)\<rparr>)"
      using assms o by (rule inv_hit)
    then show ?thesis using Some False by (simp add: Release_def)
  qed
qed

lemma Close_loop_eq:
  "Close_loop xs ac =
     (ac\<lparr>references := filter (\<lambda>p. fst p \<notin> set (map fst xs)) (references ac),
         cache := filter (\<lambda>p. fst p \<notin> set (map fst xs)) (cache ac),
         count := count ac - of_nat (length xs)\<rparr>,
      map (\<lambda>p. EvRelease (Some (snd p))) xs)"
proof (induction xs arbitrary: ac)
  case Nil
  then show ?case by simp
next
  case (Cons x xs)
  obtain key obj where x: "x = (key, obj)" by (cases x)
  have f: "\<And>al :: (int64 \<times> 'b) list.
             filter (\<lambda>p. fst p \<notin> set (map fst xs)) (AList.delete key al) =
             filter (\<lambda>p. fst p \<notin> set (map fst (x # xs))) al"
    unfolding x by (simp add: AList.delete_eq split_def) (rule filter_cong; auto)
  show ?case
    unfolding x Close_loop.simps Cons.IH
    using f [of "references ac"] f [of "cache ac"] by (simp add: x)
qed

lemma filter_own_keys: "filter (\<lambda>p. fst p \<notin> set (map fst xs)) xs = []"
  by (simp add: filter_empty_conv)

lemma filter_same_keys:
  assumes "set (map fst ys) = set (map fst xs)"
  shows "filter (\<lambda>p. fst p \<notin> set (map fst xs)) ys = []"
  unfolding assms [symmetric] by (rule filter_own_keys)

lemma Close_result:
  assumes "cache_inv ac"
  shows "AbstractCache_Close ac =
           (ac\<lparr>references := [], cache := [], count := of_nat (length (getting ac))\<rparr>,
            map (\<lambda>p. EvRelease (Some (snd p))) (cache ac))"
proof -
  note i = cache_invD [OF assms]
  have r: "filter (\<lambda>p. fst p \<notin> set (map fst (cache ac))) (references ac) = []"
    using i(4) [symmetric] by (rule filter_same_keys)
  have c: "filter (\<lambda>p. fst p \<notin> set (map fst (cache ac))) (cache ac) = []"
    by (rule filter_own_keys)
  have n: "count ac - of_nat (length (cache ac)) = of_nat (length (getting ac))"
    unfolding i(7) by simp
  show ?thesis
    unfolding AbstractCache_Close_def Close_loop_eq r c n ..
qed

lemma inv_Close:
  assumes "cache_inv ac"
  shows "cache_inv (fst (AbstractCache_Close ac))"
proof -
  note i = cache_invD [OF assms]
  have "cache_inv (ac\<lparr>references := [], cache := [], count := of_nat (length (getting ac))\<rparr>)"
    by (rule cache_invI [where c = "[]" and r = "[]" and g = "getting ac"
          and n = "of_nat (length (getting ac))"])
      (simp, simp, simp, simp, simp, simp, fact i, simp, fact i, simp add: list_all_iff, simp)
  then show ?thesis unfolding Close_result [OF assms] by simp
qed

lemma reachable_inv:
  assumes "reachable ac"
  shows "cache_inv ac"
  using assms
proof (induction rule: reachable.induct)
  case (r_new m)
  show ?case by (rule cache_inv_new)
next
  case (r_get ac key)
  then show ?case by (intro inv_Get_locked)
next
  case (r_failed ac key)
  then show ?case by (intro inv_load_failed)
next
  case (r_done ac key obj)
  then show ?case by (intro inv_load_done)
next
  case (r_release ac key)
  then show ?case by (intro inv_Release)
next
  case (r_close ac)
  then show ?case by (intro inv_Close)
qed

lemma nowrap_reachable:
  assumes "reachable_nowrap ac"
  shows "reachable ac"
  using assms
proof (induction rule: reachable_nowrap.induct)
  case (n_new m)
  show ?case by (rule r_new)
next
  case (n_get ac key)
  then show ?case by (intro r_get)
next
  case (n_failed ac key)
  then show ?case by (intro r_failed)
next
  case (n_done ac key obj)
  then show ?case by (intro r_done)
next
  case (n_release ac key)
  then show ?case by (intro r_release)
next
  case (n_close ac)
  then show ?case by (intro r_close)
qed










lemma nowrap_loading: "reachable_nowrap loading_cache"
proof -
  have "reachable_nowrap (fst (Get_locked 3 (NewAbstractCache 1 :: nat AbstractCache)))"
    by (intro n_get n_new) (simp add: refcount_def NewAbstractCache_def)
  moreover have "fst (Get_locked 3 (NewAbstractCache 1 :: nat AbstractCache)) = loading_cache"
    by (simp add: Get_locked_def NewAbstractCache_def is_getting_def loading_cache_def)
  ultimately show ?thesis by simp
qed

lemma nowrap_one_entry: "reachable_nowrap one_entry"
proof -
  have g: "fst (Get_locked 1 (NewAbstractCache 1 :: nat AbstractCache)) =
             \<lparr>cache = [], references = [], getting = [(1, True)], maxResource = 1, count = 1\<rparr>"
    by (simp add: Get_locked_def NewAbstractCache_def is_getting_def)
  have "reachable_nowrap (fst (Get_locked 1 (NewAbstractCache 1 :: nat AbstractCache)))"
    by (intro n_get n_new) (simp add: refcount_def NewAbstractCache_def)
  then have "reachable_nowrap
               (load_done 1 10 (fst (Get_locked 1 (NewAbstractCache 1 :: nat AbstractCache))))"
    by (rule n_done) (simp add: g is_getting_def)
  moreover have "load_done 1 10 (fst (Get_locked 1 (NewAbstractCache 1 :: nat AbstractCache))) =
                 one_entry"
    by (simp add: g load_done_def one_entry_def)
  ultimately show ?thesis by simp
qed

lemma nowrap_shared_entry: "reachable_nowrap shared_entry"
proof -
  have "reachable_nowrap (fst (Get_locked 1 one_entry))"
    using nowrap_one_entry by (rule n_get) (simp add: refcount_def one_entry_def)
  moreover have "fst (Get_locked 1 one_entry) = shared_entry"
    by (simp add: Get_locked_def one_entry_def is_getting_def refcount_def shared_entry_def)
  ultimately show ?thesis by simp
qed

lemma reachable_loading: "reachable loading_cache"
  using nowrap_loading by (rule nowrap_reachable)

lemma reachable_one_entry: "reachable one_entry"
  using nowrap_one_entry by (rule nowrap_reachable)

lemma reachable_shared_entry: "reachable shared_entry"
  using nowrap_shared_entry by (rule nowrap_reachable)

lemma reachable_held:
  "reachable (\<lparr>cache = [(1, 10)], references = [(1, of_nat (Suc n))], getting = [],
               maxResource = 1, count = 1\<rparr> :: nat AbstractCache)"
proof (induction n)
  case 0
  then show ?case using reachable_one_entry by (simp add: one_entry_def)
next
  case (Suc n)
  let ?ac = "\<lparr>cache = [(1, 10)], references = [(1, of_nat (Suc n))], getting = [],
              maxResource = 1, count = 1\<rparr> :: nat AbstractCache"
  have "reachable (fst (Get_locked 1 ?ac))" using Suc by (rule r_get)
  moreover have "fst (Get_locked 1 ?ac) =
                 \<lparr>cache = [(1, 10)], references = [(1, of_nat (Suc (Suc n)))], getting = [],
                  maxResource = 1, count = 1\<rparr>"
    by (simp add: Get_locked_def is_getting_def refcount_def)
  ultimately show ?case by simp
qed

lemma reachable_wrapped: "reachable wrapped_entry"
proof -
  have "(of_nat (Suc 9223372036854775807) :: go_int) = 9223372036854775808" by simp
  then show ?thesis
    using reachable_held [of 9223372036854775807] by (simp add: wrapped_entry_def)
qed

lemma Get_unfold:
  assumes "\<not> is_getting ac key"
  shows "Get getForCache key ac =
           (case map_of (cache ac) key of
              Some obj \<Rightarrow>
                Some (ac\<lparr>references := AList.update key (refcount ac key + 1) (references ac)\<rparr>,
                      [], Inr obj)
            | None \<Rightarrow>
                if 0 <s maxResource ac \<and> count ac = maxResource ac
                then Some (ac, [], Inl CacheFullError)
                else (case Get_finish key (getForCache key)
                             (ac\<lparr>count := count ac + 1,
                                 getting := AList.update key True (getting ac)\<rparr>) of
                        (ac2, r) \<Rightarrow> Some (ac2, [EvLoad key], r)))"
  using assms
  by (cases "map_of (cache ac) key") (simp_all add: Get_def Get_loop_leaves Get_locked_def)

lemma reserve_then_fail:
  assumes "cache_inv ac" "\<not> is_getting ac key"
  shows "load_failed key (ac\<lparr>count := count ac + 1,
                             getting := AList.update key True (getting ac)\<rparr>) = ac"
proof -
  have ng: "key \<notin> set (map fst (getting ac))"
    using assms(2) cache_invD(5) [OF assms(1)] by (rule not_getting_keys)
  then have "key \<notin> fst ` set (getting ac)" by simp
  then have "AList.delete key (getting ac) = getting ac" by (rule AList.delete_id)
  then show ?thesis by (simp add: load_failed_def AList.delete_update_same)
qed

lemma Get_miss:
  assumes "\<not> is_getting ac key" "map_of (cache ac) key = None"
    "\<not> (0 <s maxResource ac \<and> count ac = maxResource ac)"
  shows "Get getForCache key ac =
           (case getForCache key of
              Inl err \<Rightarrow>
                Some (load_failed key (ac\<lparr>count := count ac + 1,
                                          getting := AList.update key True (getting ac)\<rparr>),
                      [EvLoad key], Inl err)
            | Inr obj \<Rightarrow>
                Some (load_done key obj (ac\<lparr>count := count ac + 1,
                                              getting := AList.update key True (getting ac)\<rparr>),
                      [EvLoad key], Inr obj))"
  using assms by (cases "getForCache key") (simp_all add: Get_unfold Get_finish_def)

text \<open>
  Claim C5, as stated, fails when the loader's own error is \<open>CacheFullError\<close>: on a new
  cache without a bound, \<open>Get\<close> reserves, calls the loader, undoes the reservation and
  returns that error, although the cache is neither bounded nor full.
\<close>

theorem loader_error_can_be_CacheFullError:
  "Get full_loader 1 (NewAbstractCache 0 :: nat AbstractCache) =
     Some (NewAbstractCache 0, [EvLoad 1], Inl CacheFullError) \<and>
   \<not> 0 <s maxResource (NewAbstractCache 0 :: nat AbstractCache) \<and>
   count (NewAbstractCache 0 :: nat AbstractCache) = 0 \<and>
   reachable (NewAbstractCache 0 :: nat AbstractCache)"
proof -
  have g: "\<not> is_getting (NewAbstractCache 0 :: nat AbstractCache) 1"
    by (simp add: is_getting_def NewAbstractCache_def)
  have "Get full_loader 1 (NewAbstractCache 0 :: nat AbstractCache) =
     Some (NewAbstractCache 0, [EvLoad 1], Inl CacheFullError)"
    using g
    by (simp add: Get_unfold Get_finish_def full_loader_def load_failed_def NewAbstractCache_def)
  moreover have "reachable (NewAbstractCache 0 :: nat AbstractCache)" by (rule r_new)
  ultimately show ?thesis by (simp add: NewAbstractCache_def)
qed

text \<open>
  Claim C5, amended. \<open>Get\<close> returns \<open>CacheFullError\<close> exactly when the key is neither
  loading nor resident and either the cache is bounded with \<open>count\<close> equal to
  \<open>maxResource\<close>, or the loader itself fails with \<open>CacheFullError\<close>. It returns that
  error without a call of the loader exactly in the first case, and then at once and with
  the cache unchanged; in the second case, in a reachable state, the reservation is undone
  and the cache is unchanged as well. A hit returns the resident resource and adds one to
  its reference count, whatever the count of the cache is. The same holds of each pass
  through the locked body of the loop, which is what a caller among others runs. In
  every reachable state \<open>count\<close> is the number of resident entries plus the number of
  loading markers, as a machine integer.
\<close>

theorem CacheFull_iff:
  "((\<exists>ac' evs. Get getForCache key ac = Some (ac', evs, Inl CacheFullError)) \<longleftrightarrow>
      \<not> is_getting ac key \<and> map_of (cache ac) key = None \<and>
      ((0 <s maxResource ac \<and> count ac = maxResource ac) \<or>
       getForCache key = Inl CacheFullError)) \<and>
   ((\<exists>ac'. Get getForCache key ac = Some (ac', [], Inl CacheFullError)) \<longleftrightarrow>
      0 <s maxResource ac \<and> \<not> is_getting ac key \<and> map_of (cache ac) key = None \<and>
      count ac = maxResource ac) \<and>
   (0 <s maxResource ac \<and> \<not> is_getting ac key \<and> map_of (cache ac) key = None \<and>
    count ac = maxResource ac \<longrightarrow>
      Get getForCache key ac = Some (ac, [], Inl CacheFullError)) \<and>
   (reachable ac \<and> \<not> is_getting ac key \<and> map_of (cache ac) key = None \<and>
    \<not> (0 <s maxResource ac \<and> count ac = maxResource ac) \<and>
    getForCache key = Inl CacheFullError \<longrightarrow>
      Get getForCache key ac = Some (ac, [EvLoad key], Inl CacheFullError)) \<and>
   (\<not> is_getting ac key \<and> map_of (cache ac) key = Some obj \<longrightarrow>
      Get getForCache key ac =
        Some (ac\<lparr>references := AList.update key (refcount ac key + 1) (references ac)\<rparr>,
              [], Inr obj)) \<and>
   (snd (Get_locked key ac) = Full \<longleftrightarrow>
      0 <s maxResource ac \<and> \<not> is_getting ac key \<and> map_of (cache ac) key = None \<and>
      count ac = maxResource ac) \<and>
   (snd (Get_locked key ac) = Full \<longrightarrow> fst (Get_locked key ac) = ac) \<and>
   (reachable ac \<longrightarrow> count ac = of_nat (length (cache ac) + length (getting ac)))"
proof (intro conjI impI)
  show "(\<exists>ac' evs. Get getForCache key ac = Some (ac', evs, Inl CacheFullError)) \<longleftrightarrow>
      \<not> is_getting ac key \<and> map_of (cache ac) key = None \<and>
      ((0 <s maxResource ac \<and> count ac = maxResource ac) \<or>
       getForCache key = Inl CacheFullError)"
  proof (cases "is_getting ac key")
    case True
    then show ?thesis by (simp add: Get_def Get_loop_spins)
  next
    case False
    show ?thesis
    proof (cases "map_of (cache ac) key")
      case (Some obj)
      then show ?thesis using False by (simp add: Get_unfold)
    next
      case None
      show ?thesis
      proof (cases "0 <s maxResource ac \<and> count ac = maxResource ac")
        case True
        then show ?thesis using False None by (simp add: Get_unfold)
      next
        case nf: False
        show ?thesis
          using False None nf
          by (cases "getForCache key") (auto simp add: Get_miss)
      qed
    qed
  qed
next
  show "(\<exists>ac'. Get getForCache key ac = Some (ac', [], Inl CacheFullError)) \<longleftrightarrow>
      0 <s maxResource ac \<and> \<not> is_getting ac key \<and> map_of (cache ac) key = None \<and>
      count ac = maxResource ac"
  proof (cases "is_getting ac key")
    case True
    then show ?thesis by (simp add: Get_def Get_loop_spins)
  next
    case False
    show ?thesis
    proof (cases "map_of (cache ac) key")
      case (Some obj)
      then show ?thesis using False by (simp add: Get_unfold)
    next
      case None
      show ?thesis
      proof (cases "0 <s maxResource ac \<and> count ac = maxResource ac")
        case True
        then show ?thesis using False None by (simp add: Get_unfold)
      next
        case nf: False
        show ?thesis
          using False None nf
          by (cases "getForCache key") (auto simp add: Get_miss)
      qed
    qed
  qed
next
  assume "0 <s maxResource ac \<and> \<not> is_getting ac key \<and> map_of (cache ac) key = None \<and>
    count ac = maxResource ac"
  then show "Get getForCache key ac = Some (ac, [], Inl CacheFullError)"
    by (simp add: Get_unfold)
next
  assume a: "reachable ac \<and> \<not> is_getting ac key \<and> map_of (cache ac) key = None \<and>
    \<not> (0 <s maxResource ac \<and> count ac = maxResource ac) \<and>
    getForCache key = Inl CacheFullError"
  then have inv: "cache_inv ac" by (intro reachable_inv) simp
  have "load_failed key (ac\<lparr>count := count ac + 1,
                             getting := AList.update key True (getting ac)\<rparr>) = ac"
    using inv a by (intro reserve_then_fail) simp_all
  then show "Get getForCache key ac = Some (ac, [EvLoad key], Inl CacheFullError)"
    using a by (simp add: Get_miss)
next
  assume "\<not> is_getting ac key \<and> map_of (cache ac) key = Some obj"
  then show "Get getForCache key ac =
        Some (ac\<lparr>references := AList.update key (refcount ac key + 1) (references ac)\<rparr>,
              [], Inr obj)"
    by (simp add: Get_unfold)
next
  show "snd (Get_locked key ac) = Full \<longleftrightarrow>
      0 <s maxResource ac \<and> \<not> is_getting ac key \<and> map_of (cache ac) key = None \<and>
      count ac = maxResource ac"
    by (cases "map_of (cache ac) key") (simp_all add: Get_locked_def)
next
  assume "snd (Get_locked key ac) = Full"
  then show "fst (Get_locked key ac) = ac"
    by (cases "map_of (cache ac) key") (simp_all add: Get_locked_def split: if_splits)
next
  assume "reachable ac"
  then have "cache_inv ac" by (rule reachable_inv)
  then show "count ac = of_nat (length (cache ac) + length (getting ac))"
    by (rule cache_invD(7))
qed

theorem CacheFull_iff_witness:
  "Get example_loader 2 one_entry = Some (one_entry, [], Inl CacheFullError) \<and>
   Get example_loader 1 one_entry = Some (shared_entry, [], Inr 10) \<and>
   Get full_loader 3 (NewAbstractCache 1) =
     Some (NewAbstractCache 1 :: nat AbstractCache, [EvLoad 3], Inl CacheFullError)"
proof -
  have r: "reachable (NewAbstractCache 1 :: nat AbstractCache)" by (rule r_new)
  show ?thesis
    using CacheFull_iff [of example_loader 2 one_entry]
      CacheFull_iff [of example_loader 1 one_entry 10]
      CacheFull_iff [of full_loader 3 "NewAbstractCache 1 :: nat AbstractCache"] r
    by (simp add: one_entry_def shared_entry_def is_getting_def refcount_def
        NewAbstractCache_def full_loader_def word_sless_alt)
qed

text \<open>
  Claim C6. When the loader fails with \<open>err\<close>, the locked section that follows returns
  \<open>err\<close> itself, takes one from \<open>count\<close>, removes the loading marker of the key and
  leaves \<open>cache\<close> and \<open>references\<close> as they are; in a reachable state with the marker
  set, the key then has neither an entry nor a reference count. For a caller running
  alone, the cache after the failed \<open>Get\<close> is the cache before the reservation.
\<close>

theorem failed_load_reverts:
  "(Get_finish key (Inl err) ac2 = (load_failed key ac2, Inl err) \<and>
    count (load_failed key ac2) = count ac2 - 1 \<and>
    \<not> is_getting (load_failed key ac2) key \<and>
    cache (load_failed key ac2) = cache ac2 \<and>
    references (load_failed key ac2) = references ac2) \<and>
   (reachable ac2 \<and> is_getting ac2 key \<longrightarrow>
      map_of (cache (load_failed key ac2)) key = None \<and>
      map_of (references (load_failed key ac2)) key = None) \<and>
   (reachable ac \<and> getForCache key = Inl err \<and> Get_locked key ac = (ac1, Reserved) \<longrightarrow>
      load_failed key ac1 = ac \<and>
      Get getForCache key ac = Some (ac, [EvLoad key], Inl err))"
proof (intro conjI impI)
  show "Get_finish key (Inl err) ac2 = (load_failed key ac2, Inl err)"
    by (simp add: Get_finish_def)
  show "count (load_failed key ac2) = count ac2 - 1"
    and "cache (load_failed key ac2) = cache ac2"
    and "references (load_failed key ac2) = references ac2"
    by (simp_all add: load_failed_def)
  show "\<not> is_getting (load_failed key ac2) key"
    by (simp add: load_failed_def is_getting_def AList.delete_conv')
next
  assume a: "reachable ac2 \<and> is_getting ac2 key"
  then have inv: "cache_inv ac2" by (intro reachable_inv) simp
  have g: "is_getting ac2 key" using a by simp
  have nc: "key \<notin> set (map fst (cache ac2))" using inv g by (rule getting_not_resident)
  then have nr: "key \<notin> set (map fst (references ac2))" unfolding cache_invD(4) [OF inv] .
  show "map_of (cache (load_failed key ac2)) key = None"
    using nc by (simp add: load_failed_def map_of_None_keys)
  show "map_of (references (load_failed key ac2)) key = None"
    using nr by (simp add: load_failed_def map_of_None_keys)
next
  assume a: "reachable ac \<and> getForCache key = Inl err \<and> Get_locked key ac = (ac1, Reserved)"
  then have inv: "cache_inv ac" by (intro reachable_inv) simp
  have ng: "\<not> is_getting ac key"
    using a by (auto simp: Get_locked_def split: if_splits)
  have ac1: "ac1 = ac\<lparr>count := count ac + 1, getting := AList.update key True (getting ac)\<rparr>"
    and nc: "map_of (cache ac) key = None"
    and nf: "\<not> (0 <s maxResource ac \<and> count ac = maxResource ac)"
    using a by (auto simp: Get_locked_def split: if_splits option.splits)
  show r: "load_failed key ac1 = ac"
    unfolding ac1 using inv ng by (rule reserve_then_fail)
  show "Get getForCache key ac = Some (ac, [EvLoad key], Inl err)"
    using a r by (simp add: Get_miss [OF ng nc nf] ac1 [symmetric])
qed

theorem failed_load_reverts_witness:
  "Get example_loader 3 (NewAbstractCache 1) =
     Some (NewAbstractCache 1, [EvLoad 3], Inl (OtherError ''bad'')) \<and>
   Get_finish 3 (example_loader 3) loading_cache =
     (NewAbstractCache 1, Inl (OtherError ''bad'')) \<and>
   map_of (cache (load_failed 3 loading_cache)) 3 = None \<and>
   map_of (references (load_failed 3 loading_cache)) 3 = None"
proof -
  have r: "reachable (NewAbstractCache 1 :: nat AbstractCache)" by (rule r_new)
  have l: "example_loader 3 = Inl (OtherError ''bad'')" by (simp add: example_loader_def)
  have g: "Get_locked 3 (NewAbstractCache 1 :: nat AbstractCache) = (loading_cache, Reserved)"
    by (simp add: Get_locked_def NewAbstractCache_def is_getting_def loading_cache_def)
  have i: "is_getting loading_cache 3" by (simp add: is_getting_def loading_cache_def)
  show ?thesis
    using failed_load_reverts [where ac = "NewAbstractCache 1 :: nat AbstractCache"
        and key = 3 and getForCache = example_loader and err = "OtherError ''bad''"
        and ?ac1.0 = loading_cache and ?ac2.0 = loading_cache] r l g i reachable_loading
    by (simp add: NewAbstractCache_def)
qed





text \<open>
  Claim C8, as stated, fails in the state where one load is in flight: \<open>Close\<close> walks over
  \<open>cache\<close> only, so the loading marker stays and \<open>count\<close> stays 1.
\<close>

theorem Close_keeps_loading_markers:
  "reachable loading_cache \<and>
   \<not> (getting (fst (AbstractCache_Close loading_cache)) = [] \<and>
      count (fst (AbstractCache_Close loading_cache)) = 0)"
proof
  show "reachable loading_cache" by (rule reachable_loading)
  show "\<not> (getting (fst (AbstractCache_Close loading_cache)) = [] \<and>
      count (fst (AbstractCache_Close loading_cache)) = 0)"
    by (simp add: AbstractCache_Close_def loading_cache_def)
qed

text \<open>
  Claim C8, amended. In every reachable state \<open>Close\<close> calls the loader's release once
  for each resident entry, whatever its reference count, and leaves no resident entry and
  no reference count; the loading markers are untouched and \<open>count\<close> becomes their
  number. When no load is in flight the cache is as new: all maps empty and \<open>count\<close> 0.
\<close>

theorem Close_releases_every_resident_entry:
  assumes "reachable ac"
  shows "AbstractCache_Close ac =
           (ac\<lparr>references := [], cache := [], count := of_nat (length (getting ac))\<rparr>,
            map (\<lambda>p. EvRelease (Some (snd p))) (cache ac)) \<and>
         (getting ac = [] \<longrightarrow>
            AbstractCache_Close ac =
              (NewAbstractCache (maxResource ac), map (\<lambda>p. EvRelease (Some (snd p))) (cache ac)))"
proof -
  have inv: "cache_inv ac" using assms by (rule reachable_inv)
  show ?thesis
    unfolding Close_result [OF inv] by (simp add: NewAbstractCache_def)
qed

theorem Close_releases_every_resident_entry_witness:
  "AbstractCache_Close shared_entry = (NewAbstractCache 1, [EvRelease (Some 10)]) \<and>
   AbstractCache_Close wrapped_entry = (NewAbstractCache 1, [EvRelease (Some 10)]) \<and>
   AbstractCache_Close loading_cache = (loading_cache, [])"
  using Close_releases_every_resident_entry [OF reachable_shared_entry]
    Close_releases_every_resident_entry [OF reachable_wrapped]
    Close_releases_every_resident_entry [OF reachable_loading]
  by (simp add: shared_entry_def wrapped_entry_def loading_cache_def NewAbstractCache_def)

end
